theory Spec2Isabelle
  imports Main "HOL-Library.Sublist" "HOL-Library.Word"
begin

section \<open>The framer agent of \<^verbatim>\<open>OtherResources/framer.py\<close>\<close>

text \<open>
  A shallow embedding of the agent: the module-level globals are the fields of one
  record that every function takes and returns, every \<^verbatim>\<open>print\<close> appends one line
  to the field \<open>stdout\<close>, exceptions are values, and what the operating system, the
  event loop and the libraries decide (the random identifier, the output and exit status
  of \<^verbatim>\<open>ps\<close>, the pid of a spawned child, the iteration order of a set) is read from
  a record \<open>env\<close> that comes with each event.

  Text is a list of 8-bit characters, read as code points below 256; bytes are 8-bit words.
  Left out, because no output line and no field below depends on them: the debug log, the
  window size and its signal, the bytes written to a child, and the decoding of the
  output of \<^verbatim>\<open>ps\<close> (the monitor starts from the decoded text).
\<close>

subsection \<open>Python values as text\<close>

text \<open>\<^verbatim>\<open>str(n)\<close> of an integer: decimal digits, a minus sign when negative.\<close>

fun str_nat :: "nat \<Rightarrow> string" where
  "str_nat n =
     (if n < 10 then [''0123456789'' ! n]
      else str_nat (n div 10) @ [''0123456789'' ! (n mod 10)])"

declare str_nat.simps [simp del]

definition str_int :: "int \<Rightarrow> string" where
  "str_int i = (if i < 0 then CHR ''-'' # str_nat (nat (- i)) else str_nat (nat i))"

text \<open>\<^verbatim>\<open>" ".join(xs)\<close>.\<close>

fun join_sp :: "string list \<Rightarrow> string" where
  "join_sp [] = []"
| "join_sp [x] = x"
| "join_sp (x # y # ys) = x @ '' '' @ join_sp (y # ys)"

text \<open>\<^verbatim>\<open>s.split("\n")\<close>: the pieces between newlines, one more than there are newlines.\<close>

fun split_nl :: "string \<Rightarrow> string list" where
  "split_nl [] = [[]]"
| "split_nl (c # cs) =
     (if c = CHR 0x0A then [] # split_nl cs
      else (case split_nl cs of [] \<Rightarrow> [[c]] | l # ls \<Rightarrow> (c # l) # ls))"

subsection \<open>Character classes and the regular expression of the monitor\<close>

text \<open>
  The classes the pattern uses, on code points below 256: \<^verbatim>\<open>\s\<close> (for a text
  pattern: tab to carriage return, the four separators 0x1C to 0x1F, space, 0x85 and
  0xA0), \<^verbatim>\<open>\d\<close>, \<^verbatim>\<open>\S\<close>, \<^verbatim>\<open>[A-Za-z]\<close> and \<^verbatim>\<open>.\<close> (anything but a newline).
\<close>

datatype atom = Space | Digit | NonSpace | Letter | Dot

definition is_space :: "char \<Rightarrow> bool" where
  "is_space c \<longleftrightarrow>
     (let n = (of_char c :: nat)
      in (9 \<le> n \<and> n \<le> 13) \<or> (28 \<le> n \<and> n \<le> 32) \<or> n = 133 \<or> n = 160)"

definition is_digit :: "char \<Rightarrow> bool" where
  "is_digit c \<longleftrightarrow> (let n = (of_char c :: nat) in 48 \<le> n \<and> n \<le> 57)"

definition is_letter :: "char \<Rightarrow> bool" where
  "is_letter c \<longleftrightarrow>
     (let n = (of_char c :: nat) in (65 \<le> n \<and> n \<le> 90) \<or> (97 \<le> n \<and> n \<le> 122))"

fun matches :: "atom \<Rightarrow> char \<Rightarrow> bool" where
  "matches Space c = is_space c"
| "matches Digit c = is_digit c"
| "matches NonSpace c = (\<not> is_space c)"
| "matches Letter c = is_letter c"
| "matches Dot c = (c \<noteq> CHR 0x0A)"

text \<open>
  A pattern is a sequence of items: \<^verbatim>\<open>^\<close>, a class under \<^verbatim>\<open>*\<close> or \<^verbatim>\<open>+\<close>, a literal
  character, and the brackets of a capture group. The matcher is the backtracking one of
  \<^verbatim>\<open>re\<close>: a repetition takes as much as it can and gives characters back, one at a
  time, when the rest of the pattern fails. Its arguments are the pattern, whether the
  position is the start of the text, the text left, the text of the open group (if one
  is open) and the groups closed so far; it returns the groups.
\<close>

datatype item = Bol | Star atom | Plus atom | Lit char | Open | Close

fun grow :: "string option \<Rightarrow> char \<Rightarrow> string option" where
  "grow None c = None"
| "grow (Some g) c = Some (g @ [c])"

fun rx_match :: "item list \<Rightarrow> bool \<Rightarrow> string \<Rightarrow> string option \<Rightarrow> string list
    \<Rightarrow> string list option" where
  "rx_match [] b s cur grp = Some grp"
| "rx_match (Bol # its) b s cur grp = (if b then rx_match its b s cur grp else None)"
| "rx_match (Open # its) b s cur grp = rx_match its b s (Some []) grp"
| "rx_match (Close # its) b s cur grp =
     rx_match its b s None (grp @ [case cur of None \<Rightarrow> [] | Some g \<Rightarrow> g])"
| "rx_match (Lit c # its) b [] cur grp = None"
| "rx_match (Lit c # its) b (x # xs) cur grp =
     (if x = c then rx_match its False xs (grow cur x) grp else None)"
| "rx_match (Plus a # its) b [] cur grp = None"
| "rx_match (Plus a # its) b (x # xs) cur grp =
     (if matches a x then rx_match (Star a # its) False xs (grow cur x) grp else None)"
| "rx_match (Star a # its) b [] cur grp = rx_match its b [] cur grp"
| "rx_match (Star a # its) b (x # xs) cur grp =
     (if matches a x
      then (case rx_match (Star a # its) False xs (grow cur x) grp of
              Some r \<Rightarrow> Some r
            | None \<Rightarrow> rx_match its b (x # xs) cur grp)
      else rx_match its b (x # xs) cur grp)"

text \<open>\<^verbatim>\<open>re.search\<close>: the first position from which the pattern matches.\<close>

fun re_search_from :: "item list \<Rightarrow> bool \<Rightarrow> string \<Rightarrow> string list option" where
  "re_search_from p b [] = rx_match p b [] None []"
| "re_search_from p b (x # xs) =
     (case rx_match p b (x # xs) None [] of
        Some r \<Rightarrow> Some r
      | None \<Rightarrow> re_search_from p False xs)"

definition re_search :: "item list \<Rightarrow> string \<Rightarrow> string list option" where
  "re_search p s = re_search_from p True s"

text \<open>The pattern of \<^verbatim>\<open>procmon_parse\<close>, item by item as the source joins it.\<close>

definition whitespace :: "item list" where "whitespace = [Plus Space]"
definition number :: "item list" where "number = [Plus Digit]"
definition nonspace :: "item list" where "nonspace = [Plus NonSpace]"
definition letters :: "item list" where "letters = [Plus Letter]"

definition pattern :: "item list" where
  "pattern = concat
     [[Bol],
      [Star Space],
      [Open],
      number,
      [Close],
      whitespace,
      [Open],
      number,
      [Close],
      whitespace,
      [Open],
      nonspace,
      [Close],
      whitespace,
      [Open],
      letters,
      whitespace,
      letters,
      whitespace,
      number,
      whitespace,
      number,
      [Lit (CHR '':'')],
      number,
      [Lit (CHR '':'')],
      number,
      whitespace,
      number,
      [Close],
      whitespace,
      [Open, Star Dot, Close]]"

text \<open>A row of the monitor: pid, ppid, stat, lstart, command, all as matched text.\<close>

type_synonym row = "string \<times> string \<times> string \<times> string \<times> string"

definition row_pid :: "row \<Rightarrow> string" where "row_pid r = fst r"
definition row_ppid :: "row \<Rightarrow> string" where "row_ppid r = fst (snd r)"
definition row_command :: "row \<Rightarrow> string" where "row_command r = snd (snd (snd (snd r)))"

definition parse :: "string \<Rightarrow> row option" where
  "parse line =
     (case re_search pattern line of
        Some [g1, g2, g3, g4, g5] \<Rightarrow> Some (g1, g2, g3, g4, g5)
      | _ \<Rightarrow> None)"

text \<open>\<^verbatim>\<open>row[4].startswith("(") and row[4].endswith(")")\<close>.\<close>

definition defunct :: "row \<Rightarrow> bool" where
  "defunct r \<longleftrightarrow>
     (let c = row_command r in c \<noteq> [] \<and> hd c = CHR ''('' \<and> last c = CHR '')'')"

subsection \<open>Numbers from text, base64\<close>

text \<open>
  \<^verbatim>\<open>int(s)\<close> for a decimal text: surrounding whitespace is dropped, a sign may come
  first, single underscores may stand between digits, and a text of more than 4300
  digits is refused. \<open>None\<close> is \<^verbatim>\<open>ValueError\<close>. The whitespace that \<^verbatim>\<open>int\<close> drops is
  not the class \<^verbatim>\<open>\s\<close> of the pattern: on code points below 256 it is tab to carriage
  return, space, 0x85 and 0xA0, and the separators 0x1C to 0x1F are not in it, so that
  \<^verbatim>\<open>int('\x1c5')\<close> is a \<^verbatim>\<open>ValueError\<close>.
\<close>

definition is_int_space :: "char \<Rightarrow> bool" where
  "is_int_space c \<longleftrightarrow>
     (let n = (of_char c :: nat) in (9 \<le> n \<and> n \<le> 13) \<or> n = 32 \<or> n = 133 \<or> n = 160)"

definition strip :: "string \<Rightarrow> string" where
  "strip s = rev (dropWhile is_int_space (rev (dropWhile is_int_space s)))"

fun digits_ok :: "string \<Rightarrow> bool" where
  "digits_ok [] = False"
| "digits_ok [c] = is_digit c"
| "digits_ok (c # d # r) =
     (is_digit c \<and> (if d = CHR ''_'' then digits_ok r else digits_ok (d # r)))"

definition digits_val :: "string \<Rightarrow> nat" where
  "digits_val ds = foldl (\<lambda>a c. 10 * a + (of_char c - 48)) 0 ds"

definition py_int :: "string \<Rightarrow> int option" where
  "py_int s =
     (let t = strip s;
          neg = (t \<noteq> [] \<and> hd t = CHR ''-'');
          u = (if t \<noteq> [] \<and> (hd t = CHR ''-'' \<or> hd t = CHR ''+'') then tl t else t);
          ds = filter (\<lambda>c. c \<noteq> CHR ''_'') u
      in if digits_ok u \<and> length ds \<le> 4300
         then Some (if neg then - int (digits_val ds) else int (digits_val ds))
         else None)"

type_synonym byte = "8 word"

definition b64char :: "nat \<Rightarrow> char" where
  "b64char n =
     ''ABCDEFGHIJKLMNOPQRSTUVWXYZabcdefghijklmnopqrstuvwxyz0123456789+/'' ! n"

text \<open>\<^verbatim>\<open>base64.b64encode(data).decode("utf-8")\<close>: three bytes give four characters.\<close>

fun b64encode :: "byte list \<Rightarrow> string" where
  "b64encode [] = []"
| "b64encode [a] =
     [b64char (unat a div 4), b64char (unat a mod 4 * 16), CHR ''='', CHR ''='']"
| "b64encode [a, b] =
     [b64char (unat a div 4), b64char (unat a mod 4 * 16 + unat b div 16),
      b64char (unat b mod 16 * 4), CHR ''='']"
| "b64encode (a # b # c # r) =
     [b64char (unat a div 4), b64char (unat a mod 4 * 16 + unat b div 16),
      b64char (unat b mod 16 * 4 + unat c div 64), b64char (unat c mod 64)]
     @ b64encode r"

subsection \<open>Dictionaries that keep insertion order\<close>

text \<open>
  A \<^verbatim>\<open>dict\<close> whose order is observed is a list of pairs; assigning to a key that is
  present keeps its place, a new key goes last.
\<close>

fun dict_set :: "('k \<times> 'v) list \<Rightarrow> 'k \<Rightarrow> 'v \<Rightarrow> ('k \<times> 'v) list" where
  "dict_set [] k v = [(k, v)]"
| "dict_set ((k', v') # d) k v =
     (if k' = k then (k, v) # d else (k', v') # dict_set d k v)"

definition keys :: "('k \<times> 'v) list \<Rightarrow> 'k list" where
  "keys d = map fst d"

definition dict_get :: "('k \<times> 'v) list \<Rightarrow> 'k \<Rightarrow> 'v \<Rightarrow> 'v" where
  "dict_get d k dflt = (case map_of d k of None \<Rightarrow> dflt | Some v \<Rightarrow> v)"

text \<open>
  Iterating over a \<^verbatim>\<open>set\<close> of texts visits each element once, in an order the
  language leaves open. The order is given by a rank the environment supplies: every
  arrangement of the elements is the sorted one for some rank.
\<close>

definition set_iter :: "(string \<Rightarrow> nat) \<Rightarrow> string list \<Rightarrow> string list" where
  "set_iter h ks = sort_key h (remdups ks)"

subsection \<open>The state of the agent and what the environment decides\<close>

datatype exn =
  IndexError | NameError | TypeError | UnboundLocalError | RecursionError | KeyError
  | ProcessLookupError

text \<open>How a handler ends: it returns (a value read as a truth value), it raises, or
  \<^verbatim>\<open>sys.exit\<close> was called.\<close>

datatype outcome = Returned bool | Raised exn | Exited

record process =
  proc_pid :: int
  return_code :: "int option"
  stderr_reader :: bool

text \<open>A read pump: one \<^verbatim>\<open>read_forever\<close> task with the values its callback closed over.\<close>

record pump =
  pump_identifier :: int
  pump_pid :: int
  pump_islogin :: bool
  pump_channel :: int
  pump_done :: bool

text \<open>Where the coroutine \<^verbatim>\<open>autopoll\<close> stands: about to poll, asleep until armed
  again, returned, or cancelled.\<close>

datatype aptask = Polling | Paused | Finished | Cancelled

type_synonym snapshot = "(string \<times> row) list"

record agent =
  PROCESSES :: "int \<rightharpoonup> process"
  COMPLETED :: "int list"
  TASKS :: "int list"
  QUITTING :: bool
  REGISTERED :: "int list"
  LASTPS :: snapshot
  AUTOPOLL :: int
  AUTOPOLL_TASK :: "nat option"
  autopoll_tasks :: "aptask list"
  pumps :: "pump list"
  stdout :: "string list"
  exit_status :: "int option"

definition init :: agent where
  "init = \<lparr>PROCESSES = Map.empty, COMPLETED = [], TASKS = [], QUITTING = False,
     REGISTERED = [], LASTPS = [], AUTOPOLL = 0, AUTOPOLL_TASK = None,
     autopoll_tasks = [], pumps = [], stdout = [], exit_status = None\<rparr>"

text \<open>
  What is decided outside the agent, per event: the number \<^verbatim>\<open>random.randint\<close> returns,
  the exit status and the decoded output of \<^verbatim>\<open>ps\<close>, the rank behind the iteration
  order of sets, how many more calls the interpreter's recursion limit allows, the pid
  of the child a spawn creates (\<open>None\<close> when the spawn fails), the status \<^verbatim>\<open>wait\<close>
  returns for a pid, whether sending a signal raises \<^verbatim>\<open>ProcessLookupError\<close>, and
  whether \<^verbatim>\<open>base64.b64decode\<close> accepts a text.
\<close>

record env =
  randint :: int
  ps_returncode :: int
  ps_output :: string
  hash_rank :: "string \<Rightarrow> nat"
  frames_left :: nat
  spawn :: "int option"
  wait_status :: "int \<Rightarrow> int"
  signal_raises :: bool
  b64decode_ok :: "string \<Rightarrow> bool"

text \<open>An environment for the examples: identifier 7, a \<^verbatim>\<open>ps\<close> that printed nothing.\<close>

definition env0 :: env where
  "env0 = \<lparr>randint = 7, ps_returncode = 0, ps_output = [], hash_rank = (\<lambda>k. 0),
     frames_left = 100, spawn = None, wait_status = (\<lambda>pid. 0), signal_raises = False,
     b64decode_ok = (\<lambda>t. True)\<rparr>"

subsection \<open>Writing to the client\<close>

definition send :: "string \<Rightarrow> agent \<Rightarrow> agent" where
  "send text s = (if QUITTING s then s else s\<lparr>stdout := stdout s @ [text]\<rparr>)"

fun send_all :: "string list \<Rightarrow> agent \<Rightarrow> agent" where
  "send_all [] s = s"
| "send_all (l # ls) s = send_all ls (send l s)"

definition begin_msg :: "int \<Rightarrow> agent \<Rightarrow> agent" where
  "begin_msg identifier s = send (''begin '' @ str_int identifier) s"

definition end_msg :: "int \<Rightarrow> int \<Rightarrow> agent \<Rightarrow> agent" where
  "end_msg identifier status s =
     send (''end '' @ str_int identifier @ '' '' @ str_int status) s"

text \<open>\<^verbatim>\<open>fail\<close> writes the abort line; the \<^verbatim>\<open>sys.exit(-1)\<close> that follows is the outcome
  \<open>Exited\<close> of the caller.\<close>

definition fail :: "string \<Rightarrow> agent \<Rightarrow> agent" where
  "fail reason s = send (''abort '' @ reason) s"

text \<open>\<^verbatim>\<open>for i in range(0, len(encoded), n): part = encoded[i:i+n]\<close>.\<close>

function slices :: "nat \<Rightarrow> nat \<Rightarrow> string \<Rightarrow> string list" where
  "slices i n encoded =
     (if i < length encoded \<and> 0 < n
      then take n (drop i encoded) # slices (i + n) n encoded
      else [])"
  by pat_completeness auto
termination
  by (relation "measure (\<lambda>(i, n, encoded). length encoded - i)") auto

declare slices.simps [simp del]

definition print_output :: "int \<Rightarrow> int \<Rightarrow> int \<Rightarrow> bool \<Rightarrow> byte list \<Rightarrow> agent \<Rightarrow> agent" where
  "print_output identifier pid channel islogin data s =
     (let s1 = (if islogin
                then send (''%output '' @ str_int identifier @ '' '' @ str_int pid @ '' -1'') s
                else send (''%output '' @ str_int identifier @ '' '' @ str_int pid @ '' ''
                           @ str_int channel) s);
          encoded = b64encode data;
          s2 = send_all (slices 0 128 encoded) s1
      in send (''%end '' @ str_int identifier) s2)"

subsection \<open>Process monitoring\<close>

definition register :: "int \<Rightarrow> agent \<Rightarrow> agent" where
  "register pid s =
     (if pid \<in> set (REGISTERED s) then s else s\<lparr>REGISTERED := REGISTERED s @ [pid]\<rparr>)"

text \<open>\<^verbatim>\<open>list.remove\<close> takes out the first occurrence.\<close>

definition deregister :: "int \<Rightarrow> agent \<Rightarrow> agent" where
  "deregister pid s =
     (if pid \<in> set (REGISTERED s) then s\<lparr>REGISTERED := remove1 pid (REGISTERED s)\<rparr> else s)"

text \<open>
  The first loop of \<^verbatim>\<open>procmon_parse\<close>, over the parsed lines: a line that did not match
  and a row whose command is in parentheses are skipped; every other row is appended to
  the children of its ppid and stored in the index under its pid. (The dictionary
  \<^verbatim>\<open>parent\<close> is written and never read; it is left out.)
\<close>

type_synonym children = "(string \<times> string list) list"

fun index_rows :: "row option list \<Rightarrow> children \<times> snapshot \<Rightarrow> children \<times> snapshot" where
  "index_rows [] ci = ci"
| "index_rows (None # rows) ci = index_rows rows ci"
| "index_rows (Some row # rows) (children, index) =
     (if defunct row then index_rows rows (children, index)
      else index_rows rows
             (dict_set children (row_ppid row)
                (dict_get children (row_ppid row) [] @ [row_pid row]),
              dict_set index (row_pid row) row))"

text \<open>
  The nested function \<^verbatim>\<open>add\<close>: it stores the row of \<open>pid\<close> and calls itself for each
  child. Its first argument is the number of calls the recursion limit still allows;
  at zero the call raises \<^verbatim>\<open>RecursionError\<close>.
\<close>

function add :: "nat \<Rightarrow> children \<Rightarrow> snapshot \<Rightarrow> string \<Rightarrow> snapshot \<Rightarrow> exn + snapshot"
  and add_each :: "nat \<Rightarrow> children \<Rightarrow> snapshot \<Rightarrow> string list \<Rightarrow> snapshot \<Rightarrow> exn + snapshot"
  where
  "add 0 children index pid results = Inl RecursionError"
| "add (Suc n) children index pid results =
     (case map_of index pid of
        None \<Rightarrow> Inl KeyError
      | Some row \<Rightarrow>
          add_each n children index (dict_get children pid []) (dict_set results pid row))"
| "add_each n children index [] results = Inr results"
| "add_each n children index (child # rest) results =
     (case add n children index child results of
        Inl x \<Rightarrow> Inl x
      | Inr results' \<Rightarrow> add_each n children index rest results')"
  by pat_completeness auto
termination
  by (relation "inv_image (less_than <*lex*> less_than)
        (\<lambda>x. case x of Inl (n, c, i, p, r) \<Rightarrow> (n, 0)
                      | Inr (n, c, i, l, r) \<Rightarrow> (n, Suc (length l)))") auto

text \<open>\<^verbatim>\<open>for pid in REGISTERED: if str(pid) in index: add(str(pid))\<close>.\<close>

fun add_registered :: "nat \<Rightarrow> children \<Rightarrow> snapshot \<Rightarrow> int list \<Rightarrow> snapshot \<Rightarrow> exn + snapshot"
  where
  "add_registered n children index [] results = Inr results"
| "add_registered n children index (pid # pids) results =
     (if str_int pid \<in> set (keys index)
      then (case add n children index (str_int pid) results of
              Inl x \<Rightarrow> Inl x
            | Inr results' \<Rightarrow> add_registered n children index pids results')
      else add_registered n children index pids results)"

text \<open>\<^verbatim>\<open>" ".join(map(str, row))\<close>.\<close>

definition row_text :: "row \<Rightarrow> string" where
  "row_text r = (case r of (a, b, c, d, e) \<Rightarrow> join_sp [a, b, c, d, e])"

text \<open>
  The generator \<^verbatim>\<open>diff\<close>: additions and removals iterate over a difference of key
  sets, edits over the dictionary \<^verbatim>\<open>results\<close> in its own order; \<open>previous\<close> is the
  source's \<^verbatim>\<open>last\<close>. Only keys of \<^verbatim>\<open>results\<close> are looked up in \<^verbatim>\<open>results\<close>, so
  the lookups find their keys.
\<close>

definition diff :: "(string \<Rightarrow> nat) \<Rightarrow> snapshot \<Rightarrow> snapshot \<Rightarrow> string list" where
  "diff h results previous =
     map (\<lambda>addition. ''+'' @ row_text (the (map_of results addition)))
       (set_iter h (filter (\<lambda>k. k \<notin> set (keys previous)) (keys results)))
     @ map (\<lambda>removal. ''-'' @ removal)
         (set_iter h (filter (\<lambda>k. k \<notin> set (keys results)) (keys previous)))
     @ map (\<lambda>pid. ''~'' @ row_text (the (map_of results pid)))
         (filter (\<lambda>pid. pid \<in> set (keys previous) \<and> map_of results pid \<noteq> map_of previous pid)
            (keys results))"

text \<open>
  \<^verbatim>\<open>procmon_parse\<close> on the decoded output of \<^verbatim>\<open>ps\<close>: the diff lines and the agent
  with the new snapshot, or the exception that left the snapshot as it was.
\<close>

definition procmon_parse :: "env \<Rightarrow> string \<Rightarrow> agent \<Rightarrow> exn + (string list \<times> agent)" where
  "procmon_parse e output s =
     (let lines = split_nl output;
          rows = map parse lines;
          (children, index) = index_rows rows ([], [])
      in case add_registered (frames_left e) children index (REGISTERED s) [] of
           Inl x \<Rightarrow> Inl x
         | Inr results \<Rightarrow>
             (let previous = LASTPS s;
                  s' = s\<lparr>LASTPS := results\<rparr>
              in Inr (diff (hash_rank e) results previous, s')))"

text \<open>\<^verbatim>\<open>poll\<close>: the diff of a run of \<^verbatim>\<open>ps\<close> that exited with 0, \<^verbatim>\<open>None\<close> otherwise.\<close>

definition poll :: "env \<Rightarrow> agent \<Rightarrow> exn + (string list option \<times> agent)" where
  "poll e s =
     (if ps_returncode e = 0
      then (case procmon_parse e (ps_output e) s of
              Inl x \<Rightarrow> Inl x
            | Inr (final, s') \<Rightarrow> Inr (Some final, s'))
      else Inr (None, s))"

text \<open>\<^verbatim>\<open>len(output)\<close> where \<^verbatim>\<open>output\<close> may be \<^verbatim>\<open>None\<close>.\<close>

fun py_len :: "'a list option \<Rightarrow> exn + nat" where
  "py_len None = Inl TypeError"
| "py_len (Some xs) = Inr (length xs)"

text \<open>
  One resumption of the coroutine \<^verbatim>\<open>autopoll\<close>, task \<open>k\<close> of the event loop. About to
  poll: \<^verbatim>\<open>ps\<close> has ended and the loop body runs up to its next sleep; any exception
  but a cancellation is caught by the coroutine, which then returns. Asleep after a
  batch: the inner loop looks at \<^verbatim>\<open>AUTOPOLL\<close> and either sleeps again or goes back to
  polling.
\<close>

definition autopoll :: "env \<Rightarrow> nat \<Rightarrow> agent \<Rightarrow> agent" where
  "autopoll e k s =
     (if k < length (autopoll_tasks s) then
        (case autopoll_tasks s ! k of
           Polling \<Rightarrow>
             (case poll e s of
                Inl x \<Rightarrow> s\<lparr>autopoll_tasks := (autopoll_tasks s)[k := Finished]\<rparr>
              | Inr (output, s1) \<Rightarrow>
                  (case py_len output of
                     Inl x \<Rightarrow> s1\<lparr>autopoll_tasks := (autopoll_tasks s1)[k := Finished]\<rparr>
                   | Inr n \<Rightarrow>
                       if n = 0 then s1
                       else (let identifier = randint e;
                                 s2 = send (''%autopoll '' @ str_int identifier) s1;
                                 s3 = send_all (case output of None \<Rightarrow> [] | Some ls \<Rightarrow> ls) s2;
                                 s4 = send (''%end '' @ str_int identifier) s3
                             in s4\<lparr>AUTOPOLL := 0,
                                   autopoll_tasks := (autopoll_tasks s4)[k := Paused]\<rparr>)))
         | Paused \<Rightarrow>
             (if AUTOPOLL s = 0 then s
              else s\<lparr>autopoll_tasks := (autopoll_tasks s)[k := Polling]\<rparr>)
         | Finished \<Rightarrow> s
         | Cancelled \<Rightarrow> s)
      else s)"

subsection \<open>Child processes\<close>

text \<open>\<^verbatim>\<open>run_tty_proc\<close> builds the process object with no reader for stderr.\<close>

definition run_tty_proc :: "int \<Rightarrow> process" where
  "run_tty_proc pid = \<lparr>proc_pid = pid, return_code = None, stderr_reader = False\<rparr>"

text \<open>\<^verbatim>\<open>handle_read\<close> starts the pump of channel 1 and, when the process has a reader for
  stderr, the pump of channel 2.\<close>

definition handle_read :: "process \<Rightarrow> int \<Rightarrow> bool \<Rightarrow> agent \<Rightarrow> agent" where
  "handle_read proc identifier islogin s =
     s\<lparr>pumps := pumps s
         @ [\<lparr>pump_identifier = identifier, pump_pid = proc_pid proc,
              pump_islogin = islogin, pump_channel = 1, pump_done = False\<rparr>]
         @ (if stderr_reader proc
            then [\<lparr>pump_identifier = identifier, pump_pid = proc_pid proc,
                    pump_islogin = islogin, pump_channel = 2, pump_done = False\<rparr>]
            else [])\<rparr>"

text \<open>
  The loop of \<^verbatim>\<open>cleanup\<close> over the completed pids: a pid still in the registry is taken
  out, its process is killed and waited for (the status comes from the environment), its
  read handlers are queued in \<^verbatim>\<open>TASKS\<close> (here: the pid they belong to, once for the
  handler of stderr if there is one and once for that of stdout), and the terminate line
  is sent. Nothing is taken out of \<^verbatim>\<open>TASKS\<close> here, whatever the docstring of the source
  says: the dispatcher empties it.
\<close>

fun cleanup_each :: "env \<Rightarrow> int list \<Rightarrow> agent \<Rightarrow> agent" where
  "cleanup_each e [] s = s"
| "cleanup_each e (pid # completed) s =
     (case PROCESSES s pid of
        None \<Rightarrow> cleanup_each e completed s
      | Some proc \<Rightarrow>
          (let rc = (case return_code proc of None \<Rightarrow> wait_status e pid | Some r \<Rightarrow> r);
               s1 = s\<lparr>PROCESSES := (PROCESSES s)(pid := None),
                      TASKS := TASKS s @ (if stderr_reader proc then [proc_pid proc] else [])
                                 @ [proc_pid proc]\<rparr>;
               s2 = send (''%terminate '' @ str_int (proc_pid proc) @ '' '' @ str_int rc) s1
           in cleanup_each e completed s2))"

definition cleanup :: "env \<Rightarrow> agent \<Rightarrow> agent" where
  "cleanup e s = cleanup_each e (COMPLETED s) (s\<lparr>COMPLETED := []\<rparr>)"

text \<open>
  One read of pump \<open>k\<close> (\<^verbatim>\<open>read_forever\<close> with the callback of
  \<^verbatim>\<open>make_monitor_process\<close>): an empty read marks the pid completed, runs \<^verbatim>\<open>cleanup\<close> and
  ends the pump; any other read is printed.
\<close>

definition read_forever :: "env \<Rightarrow> nat \<Rightarrow> byte list \<Rightarrow> agent \<Rightarrow> agent" where
  "read_forever e k data s =
     (if k < length (pumps s) \<and> \<not> pump_done (pumps s ! k) then
        (let p = pumps s ! k
         in if length data = 0
            then cleanup e (s\<lparr>COMPLETED := COMPLETED s @ [pump_pid p],
                              pumps := (pumps s)[k := p\<lparr>pump_done := True\<rparr>]\<rparr>)
            else print_output (pump_identifier p) (pump_pid p) (pump_channel p)
                   (pump_islogin p) data s)
      else s)"

subsection \<open>Commands\<close>

text \<open>
  Each handler takes the environment, the request's identifier and arguments and the
  agent. Where the source reads \<^verbatim>\<open>args[0]\<close> of an empty list it raises
  \<^verbatim>\<open>IndexError\<close>; where a spawn fails, the name \<^verbatim>\<open>proc\<close> is unbound at its next
  use.
\<close>

definition handle_login :: "env \<Rightarrow> int \<Rightarrow> string list \<Rightarrow> agent \<Rightarrow> outcome \<times> agent" where
  "handle_login e identifier args s =
     (case args of
        [] \<Rightarrow> (Raised IndexError, s)
      | cwd # args' \<Rightarrow>
          (case spawn e of
             None \<Rightarrow> (Raised UnboundLocalError, s)
           | Some pid \<Rightarrow>
               (let proc = run_tty_proc pid;
                    s1 = s\<lparr>PROCESSES := (PROCESSES s)(proc_pid proc \<mapsto> proc)\<rparr>;
                    s2 = begin_msg identifier s1;
                    s3 = send (str_int (proc_pid proc)) s2;
                    s4 = end_msg identifier 0 s3
                in (Returned False, handle_read proc identifier True s4))))"

definition handle_run :: "env \<Rightarrow> int \<Rightarrow> string list \<Rightarrow> agent \<Rightarrow> outcome \<times> agent" where
  "handle_run e identifier args s =
     (case (case args of [] \<Rightarrow> None | command # _ \<Rightarrow> spawn e) of
        None \<Rightarrow> (Raised UnboundLocalError, s)
      | Some pid \<Rightarrow>
          (let proc = run_tty_proc pid;
               s1 = s\<lparr>PROCESSES := (PROCESSES s)(proc_pid proc \<mapsto> proc)\<rparr>;
               s2 = begin_msg identifier s1;
               s3 = send (str_int (proc_pid proc)) s2;
               s4 = end_msg identifier 0 s3
           in (Returned False, handle_read proc identifier False s4)))"

definition handle_reset :: "env \<Rightarrow> int \<Rightarrow> string list \<Rightarrow> agent \<Rightarrow> outcome \<times> agent" where
  "handle_reset e identifier args s =
     (let s1 = s\<lparr>REGISTERED := [], LASTPS := [], AUTOPOLL := 0\<rparr>
      in (Returned False, end_msg identifier 0 (begin_msg identifier s1)))"

definition handle_register :: "env \<Rightarrow> int \<Rightarrow> string list \<Rightarrow> agent \<Rightarrow> outcome \<times> agent" where
  "handle_register e identifier args s =
     (if length args < 1 then (Exited, fail ''not enough arguments'' s)
      else (case py_int (hd args) of
              None \<Rightarrow> (Exited, fail ''exception decoding argument'' s)
            | Some pid \<Rightarrow>
                (Returned False, register pid (end_msg identifier 0 (begin_msg identifier s)))))"

definition handle_deregister :: "env \<Rightarrow> int \<Rightarrow> string list \<Rightarrow> agent \<Rightarrow> outcome \<times> agent" where
  "handle_deregister e identifier args s =
     (if length args < 1 then (Exited, fail ''not enough arguments'' s)
      else (case py_int (hd args) of
              None \<Rightarrow> (Exited, fail ''exception decoding argument'' s)
            | Some pid \<Rightarrow>
                (Returned False, deregister pid (end_msg identifier 0 (begin_msg identifier s)))))"

text \<open>\<^verbatim>\<open>asyncio.create_task(autopoll(1.0))\<close>: a new task, about to poll.\<close>

definition handle_autopoll :: "env \<Rightarrow> int \<Rightarrow> string list \<Rightarrow> agent \<Rightarrow> outcome \<times> agent" where
  "handle_autopoll e identifier args s =
     (let s1 = end_msg identifier 0 (begin_msg identifier s)
      in if AUTOPOLL s1 \<noteq> 0 then (Returned False, s1)
         else (let s2 = s1\<lparr>AUTOPOLL := 1\<rparr>
               in if AUTOPOLL_TASK s2 \<noteq> None then (Returned False, s2)
                  else (Returned False,
                        s2\<lparr>AUTOPOLL_TASK := Some (length (autopoll_tasks s2)),
                           autopoll_tasks := autopoll_tasks s2 @ [Polling]\<rparr>)))"

text \<open>The log line of \<^verbatim>\<open>handle_poll\<close> takes \<^verbatim>\<open>len(output)\<close> before anything is sent.\<close>

definition handle_poll :: "env \<Rightarrow> int \<Rightarrow> string list \<Rightarrow> agent \<Rightarrow> outcome \<times> agent" where
  "handle_poll e identifier args s =
     (case poll e s of
        Inl x \<Rightarrow> (Raised x, s)
      | Inr (output, s1) \<Rightarrow>
          (case py_len output of
             Inl x \<Rightarrow> (Raised x, s1)
           | Inr n \<Rightarrow>
               (let s2 = begin_msg identifier s1
                in case output of
                     Some ls \<Rightarrow> (Returned False, end_msg identifier 0 (send_all ls s2))
                   | None \<Rightarrow> (Returned False, end_msg identifier 1 s2))))"

definition handle_send :: "env \<Rightarrow> int \<Rightarrow> string list \<Rightarrow> agent \<Rightarrow> outcome \<times> agent" where
  "handle_send e identifier args s =
     (if length args < 2 then (Exited, fail ''not enough arguments'' s)
      else (case (case py_int (args ! 0) of
                    None \<Rightarrow> None
                  | Some pid \<Rightarrow> if b64decode_ok e (args ! 1) then Some pid else None) of
              None \<Rightarrow> (Exited, fail ''exception decoding argument'' s)
            | Some pid \<Rightarrow>
                if pid \<notin> dom (PROCESSES s)
                then (Returned False, end_msg identifier 1 (begin_msg identifier s))
                else (Returned False, end_msg identifier 0 (begin_msg identifier s))))"

text \<open>
  \<^verbatim>\<open>handle_kill\<close>: for a pid that is not in the registry the source calls \<^verbatim>\<open>begin\<close>
  and then \<^verbatim>\<open>error\<close>, a name the module does not define, so the call raises
  \<^verbatim>\<open>NameError\<close>.
\<close>

definition handle_kill :: "env \<Rightarrow> int \<Rightarrow> string list \<Rightarrow> agent \<Rightarrow> outcome \<times> agent" where
  "handle_kill e identifier args s =
     (case (case args of [] \<Rightarrow> None | a # _ \<Rightarrow> py_int a) of
        None \<Rightarrow> (Exited, fail ''pid not an int'' s)
      | Some pid \<Rightarrow>
          if pid \<notin> dom (PROCESSES s)
          then (Raised NameError, begin_msg identifier s)
          else if signal_raises e then (Raised ProcessLookupError, s)
          else (Returned False, end_msg identifier 0 (begin_msg identifier s)))"

text \<open>Cancelling a task that has not ended; a task that has ended stays as it is.\<close>

fun cancel :: "aptask \<Rightarrow> aptask" where
  "cancel Polling = Cancelled"
| "cancel Paused = Cancelled"
| "cancel Finished = Finished"
| "cancel Cancelled = Cancelled"

definition handle_quit :: "env \<Rightarrow> int \<Rightarrow> string list \<Rightarrow> agent \<Rightarrow> outcome \<times> agent" where
  "handle_quit e identifier args s =
     (let s1 = end_msg identifier 0 (begin_msg identifier s)
      in case AUTOPOLL_TASK s1 of
           None \<Rightarrow> (Returned True, s1)
         | Some k \<Rightarrow>
             (Returned True,
              s1\<lparr>autopoll_tasks := (autopoll_tasks s1)[k := cancel (autopoll_tasks s1 ! k)],
                 AUTOPOLL_TASK := None\<rparr>))"

subsection \<open>The dispatcher\<close>

definition HANDLERS ::
  "string \<Rightarrow> (env \<Rightarrow> int \<Rightarrow> string list \<Rightarrow> agent \<Rightarrow> outcome \<times> agent) option" where
  "HANDLERS cmd =
     (if cmd = ''run'' then Some handle_run
      else if cmd = ''login'' then Some handle_login
      else if cmd = ''send'' then Some handle_send
      else if cmd = ''kill'' then Some handle_kill
      else if cmd = ''quit'' then Some handle_quit
      else if cmd = ''register'' then Some handle_register
      else if cmd = ''deregister'' then Some handle_deregister
      else if cmd = ''poll'' then Some handle_poll
      else if cmd = ''reset'' then Some handle_reset
      else if cmd = ''autopoll'' then Some handle_autopoll
      else None)"

text \<open>What \<^verbatim>\<open>handle\<close> does once the handler has ended without exiting: \<^verbatim>\<open>cleanup\<close>,
  then the queued tasks are awaited and the queue is emptied.\<close>

definition finish :: "env \<Rightarrow> bool \<Rightarrow> agent \<Rightarrow> outcome \<times> agent" where
  "finish e should_quit s = (Returned should_quit, (cleanup e s)\<lparr>TASKS := []\<rparr>)"

definition handle :: "env \<Rightarrow> string list \<Rightarrow> agent \<Rightarrow> outcome \<times> agent" where
  "handle e args s =
     (case args of
        [] \<Rightarrow> (Returned False, s)
      | cmd # args' \<Rightarrow>
          (let identifier = randint e
           in case HANDLERS cmd of
                None \<Rightarrow> (Exited, fail ''unrecognized command'' s)
              | Some f \<Rightarrow>
                  (case f e identifier args' s of
                     (Exited, s1) \<Rightarrow> (Exited, s1)
                   | (Raised x, s1) \<Rightarrow> finish e False s1
                   | (Returned should_quit, s1) \<Rightarrow>
                       finish e should_quit
                         (if should_quit then s1\<lparr>QUITTING := True\<rparr> else s1))))"

subsection \<open>Events\<close>

text \<open>
  What can happen to the agent: a request has been read (its argument lines), a read
  pump has read bytes from its child, the autopoll task resumes. \<open>fire\<close> is the effect
  of one event; a request that ends in \<^verbatim>\<open>sys.exit(-1)\<close> ends the process with status
  255, one that asks to quit ends it with status 0. \<open>step\<close> is \<open>fire\<close> while the
  process lives, and \<open>run\<close> a sequence of steps.

  The tasks share one thread and give way only where they wait, and no handler waits
  between its begin line and its end line, nor does a pump inside a frame or the
  autopoll task inside a batch. So each event is one step here; what another task does
  while a handler waits (for a spawn, for \<^verbatim>\<open>ps\<close>, for a child to exit) is an event
  before or after it.
\<close>

datatype event = Request "string list" | Read nat "byte list" | Wake nat

fun fire :: "env \<times> event \<Rightarrow> agent \<Rightarrow> agent" where
  "fire (e, Request args) s =
     (case handle e args s of
        (Exited, s1) \<Rightarrow> s1\<lparr>exit_status := Some 255\<rparr>
      | (Raised x, s1) \<Rightarrow> s1
      | (Returned quit, s1) \<Rightarrow> if quit then s1\<lparr>exit_status := Some 0\<rparr> else s1)"
| "fire (e, Read k data) s = read_forever e k data s"
| "fire (e, Wake k) s = autopoll e k s"

definition step :: "env \<times> event \<Rightarrow> agent \<Rightarrow> agent" where
  "step ev s = (if exit_status s = None then fire ev s else s)"

fun run :: "(env \<times> event) list \<Rightarrow> agent \<Rightarrow> agent" where
  "run [] s = s"
| "run (ev # evs) s = run evs (step ev s)"

subsection \<open>The snapshot as the specification describes it\<close>

text \<open>
  The words of the specification, to compare \<^verbatim>\<open>procmon_parse\<close> with: the rows of the
  output (a line that matches the pattern, a command that is not in parentheses), in the
  order of the output; the child index as a relation from ppid to pid; the subtree of a
  root, which is the root and its transitive descendants; the tracked pids, the union of
  the subtrees of the registered pids (as text) that have a row; and the row a pid has,
  which is the last of its rows.
\<close>

definition spec_rows :: "string \<Rightarrow> row list" where
  "spec_rows output = filter (\<lambda>r. \<not> defunct r) (List.map_filter parse (split_nl output))"

definition spec_child_edges :: "row list \<Rightarrow> (string \<times> string) set" where
  "spec_child_edges rows = {(row_ppid r, row_pid r) | r. r \<in> set rows}"

definition spec_subtree :: "row list \<Rightarrow> string \<Rightarrow> string set" where
  "spec_subtree rows root = (spec_child_edges rows)\<^sup>* `` {root}"

definition spec_tracked :: "int list \<Rightarrow> row list \<Rightarrow> string set" where
  "spec_tracked registered rows =
     (\<Union>p \<in> set registered.
        if str_int p \<in> row_pid ` set rows then spec_subtree rows (str_int p) else {})"

definition spec_row_of :: "row list \<Rightarrow> string \<Rightarrow> row option" where
  "spec_row_of rows pid = find (\<lambda>r. row_pid r = pid) (rev rows)"

subsection \<open>Invariants of the autopoll task\<close>

text \<open>
  Two facts about the runs of the agent that the proofs below carry along. The first:
  there is at most one task; the handle \<^verbatim>\<open>AUTOPOLL_TASK\<close>, when set, is that task, and
  when it is not set there is no task unless the agent has exited. The second: the one task has
  returned, and its handle is still set unless the agent has exited.
\<close>

definition one_task :: "agent \<Rightarrow> bool" where
  "one_task s \<longleftrightarrow>
     length (autopoll_tasks s) \<le> 1
     \<and> (case AUTOPOLL_TASK s of
          None \<Rightarrow> autopoll_tasks s = [] \<or> exit_status s \<noteq> None
        | Some k \<Rightarrow> k = 0 \<and> length (autopoll_tasks s) = 1)"

definition task_ended :: "agent \<Rightarrow> bool" where
  "task_ended s \<longleftrightarrow>
     autopoll_tasks s = [Finished] \<and> (AUTOPOLL_TASK s = Some 0 \<or> exit_status s \<noteq> None)"

text \<open>
  A third: from one state to a later one, stdout has only grown, and by no line that
  opens an autopoll frame.
\<close>

definition quiet_since :: "agent \<Rightarrow> agent \<Rightarrow> bool" where
  "quiet_since s s' \<longleftrightarrow>
     (\<exists>ls. stdout s' = stdout s @ ls \<and> (\<forall>l \<in> set ls. \<not> prefix ''%autopoll'' l))"

subsection \<open>Basic facts\<close>

text \<open>The definitions to unfold when a number or a line of \<^verbatim>\<open>ps\<close> is evaluated.\<close>

lemmas int_text_defs = py_int_def strip_def is_int_space_def is_digit_def digits_val_def
  str_int_def str_nat.simps

lemmas parse_defs = parse_def re_search_def pattern_def whitespace_def number_def
  nonspace_def letters_def is_digit_def is_space_def is_letter_def

lemma str_nat_nonempty: "str_nat n \<noteq> []"
  by (subst str_nat.simps) simp

text \<open>
  What \<^verbatim>\<open>int\<close> takes: a separator before the digits is refused, a no-break space and a
  space around them are dropped, a sign and an underscore are read. A kill request with
  the refused text aborts.
\<close>

lemma py_int_whitespace:
  "py_int [CHR 0x1C, CHR ''5''] = None \<and> py_int ([CHR 0xA0] @ ''5 '') = Some 5
   \<and> py_int ''-1_0'' = Some (- 10)"
  by (simp add: int_text_defs)

lemma kill_separator_aborts:
  "handle_kill e i [[CHR 0x1C, CHR ''5'']] s = (Exited, fail ''pid not an int'' s)"
  by (simp add: handle_kill_def int_text_defs)

subsection \<open>What the writers and the monitor leave alone\<close>

lemma send_all_eq:
  "send_all ls s = (if QUITTING s \<or> ls = [] then s else s\<lparr>stdout := stdout s @ ls\<rparr>)"
  by (induction ls arbitrary: s) (auto simp: send_def)

lemmas writer_defs = send_def begin_msg_def end_msg_def fail_def

lemma cleanup_each_frame:
  "QUITTING (cleanup_each e c s) = QUITTING s
   \<and> pumps (cleanup_each e c s) = pumps s
   \<and> autopoll_tasks (cleanup_each e c s) = autopoll_tasks s
   \<and> AUTOPOLL_TASK (cleanup_each e c s) = AUTOPOLL_TASK s
   \<and> AUTOPOLL (cleanup_each e c s) = AUTOPOLL s
   \<and> exit_status (cleanup_each e c s) = exit_status s
   \<and> REGISTERED (cleanup_each e c s) = REGISTERED s
   \<and> LASTPS (cleanup_each e c s) = LASTPS s"
  by (induction c arbitrary: s) (auto simp: send_def Let_def split: option.splits)

lemma cleanup_frame:
  "QUITTING (cleanup e s) = QUITTING s
   \<and> pumps (cleanup e s) = pumps s
   \<and> autopoll_tasks (cleanup e s) = autopoll_tasks s
   \<and> AUTOPOLL_TASK (cleanup e s) = AUTOPOLL_TASK s
   \<and> AUTOPOLL (cleanup e s) = AUTOPOLL s
   \<and> exit_status (cleanup e s) = exit_status s
   \<and> REGISTERED (cleanup e s) = REGISTERED s
   \<and> LASTPS (cleanup e s) = LASTPS s"
  by (simp add: cleanup_def cleanup_each_frame)

lemma cleanup_idle: "COMPLETED s = [] \<Longrightarrow> cleanup e s = s"
  by (simp add: cleanup_def)

lemma procmon_parse_frame:
  assumes "procmon_parse e out s = Inr (ls, s')"
  shows "s' = s\<lparr>LASTPS := LASTPS s'\<rparr>"
  using assms by (auto simp: procmon_parse_def Let_def split: prod.splits sum.splits)

lemma poll_frame:
  assumes "poll e s = Inr (r, s')"
  shows "s' = s\<lparr>LASTPS := LASTPS s'\<rparr>"
  using assms by (auto simp: poll_def split: if_splits sum.splits dest: procmon_parse_frame)

lemma poll_fields:
  assumes "poll e s = Inr (r, s')"
  shows "QUITTING s' = QUITTING s \<and> pumps s' = pumps s \<and> stdout s' = stdout s
    \<and> autopoll_tasks s' = autopoll_tasks s \<and> AUTOPOLL_TASK s' = AUTOPOLL_TASK s
    \<and> AUTOPOLL s' = AUTOPOLL s \<and> exit_status s' = exit_status s
    \<and> REGISTERED s' = REGISTERED s \<and> COMPLETED s' = COMPLETED s
    \<and> PROCESSES s' = PROCESSES s \<and> TASKS s' = TASKS s"
proof -
  from assms have "s' = s\<lparr>LASTPS := LASTPS s'\<rparr>"
    by (rule poll_frame)
  then obtain l where "s' = s\<lparr>LASTPS := l\<rparr>" ..
  then show ?thesis by simp
qed

subsection \<open>Requests that end without their end line\<close>

text \<open>
  C1 (the code departs from it): a kill request whose pid parses as an integer that is not
  a key of the registry. The handler sends the begin line and then raises
  \<^verbatim>\<open>NameError\<close>; the dispatcher catches it, so the request ends with the begin line as
  its only output, the registry as it was and the agent still running, but with no
  \<^verbatim>\<open>end <id> 1\<close>.
\<close>

theorem kill_unknown_pid:
  assumes "py_int a = Some pid" and "pid \<notin> dom (PROCESSES s)" and "\<not> QUITTING s"
    and "COMPLETED s = []" and "exit_status s = None"
  shows "handle_kill e i (a # rest) s
           = (Raised NameError, s\<lparr>stdout := stdout s @ [''begin '' @ str_int i]\<rparr>)
         \<and> step (e, Request (''kill'' # a # rest)) s
           = s\<lparr>stdout := stdout s @ [''begin '' @ str_int (randint e)], TASKS := []\<rparr>"
proof -
  from assms(1-3) have h: "handle_kill e i (a # rest) s
      = (Raised NameError, s\<lparr>stdout := stdout s @ [''begin '' @ str_int i]\<rparr>)" for i
    by (simp add: handle_kill_def begin_msg_def send_def)
  have "handle e (''kill'' # a # rest) s
      = (Returned False, s\<lparr>stdout := stdout s @ [''begin '' @ str_int (randint e)], TASKS := []\<rparr>)"
    using assms(4) by (simp add: handle_def HANDLERS_def h finish_def cleanup_idle)
  with h assms(5) show ?thesis
    by (simp add: step_def)
qed

theorem kill_unknown_pid_witness:
  "py_int ''5'' = Some 5 \<and> (5::int) \<notin> dom (PROCESSES init) \<and> \<not> QUITTING init
   \<and> COMPLETED init = [] \<and> exit_status init = None
   \<and> handle_kill env0 7 [''5''] init = (Raised NameError, init\<lparr>stdout := [''begin 7'']\<rparr>)
   \<and> step (env0, Request [''kill'', ''5'']) init = init\<lparr>stdout := [''begin 7'']\<rparr>"
proof -
  have a: "py_int ''5'' = Some 5"
    by (simp add: int_text_defs)
  have b: "(5::int) \<notin> dom (PROCESSES init)" "\<not> QUITTING init" "COMPLETED init = []"
    "exit_status init = None"
    by (simp_all add: init_def)
  have c: "randint env0 = 7" "str_int 7 = ''7''"
    by (simp_all add: env0_def int_text_defs)
  from kill_unknown_pid [OF a b, of env0 7 "[]"] a b c show ?thesis
    by (simp add: init_def)
qed

text \<open>
  C2 (the code departs from it): a poll request during which \<^verbatim>\<open>ps\<close> exits with a
  status other than 0. \<^verbatim>\<open>poll\<close> returns \<^verbatim>\<open>None\<close>, and the log line of the handler
  takes its length before the begin line is sent: the handler raises \<^verbatim>\<open>TypeError\<close>
  and sends nothing, neither \<^verbatim>\<open>begin <id>\<close> nor \<^verbatim>\<open>end <id> 1\<close>. The snapshot is left
  as it was.
\<close>

theorem poll_ps_failure:
  assumes "ps_returncode e \<noteq> 0" and "COMPLETED s = []" and "exit_status s = None"
  shows "handle_poll e i args s = (Raised TypeError, s)
         \<and> step (e, Request (''poll'' # args)) s = s\<lparr>TASKS := []\<rparr>"
proof -
  from assms(1) have h: "handle_poll e i args s = (Raised TypeError, s)" for i
    by (simp add: handle_poll_def poll_def)
  have "handle e (''poll'' # args) s = (Returned False, s\<lparr>TASKS := []\<rparr>)"
    using assms(2) by (simp add: handle_def HANDLERS_def h finish_def cleanup_idle)
  with h assms(3) show ?thesis
    by (simp add: step_def)
qed

theorem poll_ps_failure_witness:
  "ps_returncode (env0\<lparr>ps_returncode := 1\<rparr>) \<noteq> 0 \<and> COMPLETED init = []
   \<and> exit_status init = None
   \<and> handle_poll (env0\<lparr>ps_returncode := 1\<rparr>) 7 [] init = (Raised TypeError, init)
   \<and> stdout (step (env0\<lparr>ps_returncode := 1\<rparr>, Request [''poll'']) init) = []
   \<and> LASTPS (step (env0\<lparr>ps_returncode := 1\<rparr>, Request [''poll'']) init) = LASTPS init"
proof -
  have a: "ps_returncode (env0\<lparr>ps_returncode := 1\<rparr>) \<noteq> 0"
    by simp
  have b: "COMPLETED init = []" "exit_status init = None"
    by (simp_all add: init_def)
  from poll_ps_failure [OF a b, of 7 "[]"] a b show ?thesis
    by (simp add: init_def)
qed

text \<open>
  C3 (the code departs from it): a run in which a begin line is never followed by its end
  line. The kill request for the unknown pid 5 gets the identifier 7 and sends
  \<^verbatim>\<open>begin 7\<close>; the quit request that follows gets 8, and the agent exits with
  \<^verbatim>\<open>begin 7\<close> unanswered.
\<close>

theorem begin_without_end:
  "stdout (run [(env0, Request [''kill'', ''5'']), (env0\<lparr>randint := 8\<rparr>, Request [''quit''])] init)
     = [''begin 7'', ''begin 8'', ''end 8 0'']
   \<and> exit_status
       (run [(env0, Request [''kill'', ''5'']), (env0\<lparr>randint := 8\<rparr>, Request [''quit''])] init)
     = Some 0"
  by (simp add: step_def handle_def HANDLERS_def handle_kill_def handle_quit_def finish_def
      cleanup_def writer_defs int_text_defs init_def env0_def)


subsection \<open>The registered set\<close>

text \<open>
  C4, as stated: for every pid and every registered set, \<^verbatim>\<open>register(p)\<close> and then
  \<^verbatim>\<open>deregister(p)\<close> leave the set as it was before the registration. It fails when
  \<open>p\<close> is registered already: \<^verbatim>\<open>register\<close> returns at once, and \<^verbatim>\<open>deregister\<close>
  then takes \<open>p\<close> out.
\<close>

theorem register_deregister_counterexample:
  "REGISTERED (deregister 5 (register 5 (init\<lparr>REGISTERED := [5]\<rparr>)))
     \<noteq> REGISTERED (init\<lparr>REGISTERED := [5]\<rparr>)"
  by (simp add: register_def deregister_def)

lemma remove1_snoc_fresh: "p \<notin> set xs \<Longrightarrow> remove1 p (xs @ [p]) = xs"
  by (induction xs) auto

text \<open>
  C4, amended: for every pid \<open>p\<close> that is not in the registered set,
  \<^verbatim>\<open>register(p)\<close> and then \<^verbatim>\<open>deregister(p)\<close> leave the registered set (and the whole
  state of the agent) as it was before.
\<close>

theorem register_deregister_fresh:
  assumes "p \<notin> set (REGISTERED s)"
  shows "deregister p (register p s) = s"
  using assms by (simp add: register_def deregister_def remove1_snoc_fresh)

theorem register_deregister_fresh_witness:
  "(5::int) \<notin> set (REGISTERED (init\<lparr>REGISTERED := [3]\<rparr>))
   \<and> deregister 5 (register 5 (init\<lparr>REGISTERED := [3]\<rparr>)) = init\<lparr>REGISTERED := [3]\<rparr>"
proof -
  have h: "(5::int) \<notin> set (REGISTERED (init\<lparr>REGISTERED := [3]\<rparr>))"
    by simp
  from h register_deregister_fresh [OF h] show ?thesis
    by simp
qed

subsection \<open>Frames of child output\<close>

lemma slices_concat: "concat (slices i n t) = (if 0 < n then drop i t else [])"
proof (induction i n t rule: slices.induct)
  case (1 i n t)
  show ?case
  proof (cases "i < length t \<and> 0 < n")
    case True
    with "1.IH" have "concat (slices (i + n) n t) = drop (i + n) t"
      by simp
    moreover have "take n (drop i t) @ drop (i + n) t = drop i t"
      by (metis add.commute append_take_drop_id drop_drop)
    ultimately show ?thesis
      using True by (subst slices.simps) simp
  next
    case False
    then show ?thesis
      by (subst slices.simps) auto
  qed
qed

lemma slices_lengths:
  "l \<in> set (slices i n t) \<Longrightarrow> 0 < length l \<and> length l \<le> n"
proof (induction i n t rule: slices.induct)
  case (1 i n t)
  show ?case
  proof (cases "i < length t \<and> 0 < n")
    case True
    with "1.prems" have "l = take n (drop i t) \<or> l \<in> set (slices (i + n) n t)"
      by (subst (asm) slices.simps) simp
    then show ?thesis
      using True "1.IH" by auto
  next
    case False
    with "1.prems" show ?thesis
      by (subst (asm) slices.simps) auto
  qed
qed

lemma slices_butlast_full:
  "l \<in> set (butlast (slices i n t)) \<Longrightarrow> length l = n"
proof (induction i n t rule: slices.induct)
  case (1 i n t)
  show ?case
  proof (cases "i < length t \<and> 0 < n")
    case True
    note unfold = slices.simps [of i n t]
    show ?thesis
    proof (cases "slices (i + n) n t = []")
      case True
      with \<open>i < length t \<and> 0 < n\<close> "1.prems" show ?thesis
        by (simp add: unfold)
    next
      case False
      then have "i + n < length t"
        by (subst (asm) slices.simps) (auto split: if_splits)
      with False \<open>i < length t \<and> 0 < n\<close> "1.prems" "1.IH" show ?thesis
        by (auto simp: unfold)
    qed
  next
    case False
    with "1.prems" show ?thesis
      by (subst (asm) slices.simps) auto
  qed
qed

lemma slices_nonempty: "t \<noteq> [] \<Longrightarrow> slices 0 128 t \<noteq> []"
  by (subst slices.simps) simp

lemma b64encode_nonempty: "data \<noteq> [] \<Longrightarrow> b64encode data \<noteq> []"
  by (induction data rule: b64encode.induct) simp_all

lemma print_output_eq:
  "print_output identifier pid channel islogin data s =
     (if QUITTING s then s
      else s\<lparr>stdout := stdout s
             @ [''%output '' @ str_int identifier @ '' '' @ str_int pid @ '' ''
                  @ (if islogin then ''-1'' else str_int channel)]
             @ slices 0 128 (b64encode data)
             @ [''%end '' @ str_int identifier]\<rparr>)"
  by (simp add: print_output_def send_all_eq send_def Let_def)

text \<open>Pumps are only ever added at the end, and a pump keeps what its callback closed over.\<close>

lemma handler_pumps:
  assumes "HANDLERS cmd = Some f"
  shows "\<exists>new. pumps (snd (f e i a s)) = pumps s @ new"
proof -
  have "\<exists>new. pumps (snd (handle_poll e i a s)) = pumps s @ new"
    by (auto simp: handle_poll_def writer_defs send_all_eq Let_def
        split: sum.splits prod.splits option.splits dest: poll_fields)
  with assms show ?thesis
    by (auto simp: HANDLERS_def handle_run_def handle_login_def handle_send_def handle_kill_def
        handle_quit_def handle_register_def handle_deregister_def handle_reset_def
        handle_autopoll_def writer_defs handle_read_def register_def deregister_def
        Let_def split: if_splits option.splits list.splits)
qed

lemma handle_pumps: "\<exists>new. pumps (snd (handle e args s)) = pumps s @ new"
proof (cases args)
  case Nil
  then show ?thesis by (simp add: handle_def)
next
  case (Cons cmd rest)
  show ?thesis
  proof (cases "HANDLERS cmd")
    case None
    with Cons show ?thesis by (simp add: handle_def writer_defs)
  next
    case (Some f)
    from handler_pumps [OF Some, of e "randint e" rest s]
    obtain new where "pumps (snd (f e (randint e) rest s)) = pumps s @ new" ..
    with Cons Some show ?thesis
      by (cases "f e (randint e) rest s")
        (auto simp: handle_def finish_def cleanup_frame split: outcome.splits)
  qed
qed

lemma pump_kept_fire:
  assumes "k < length (pumps s)"
  shows "k < length (pumps (fire ev s))
    \<and> pump_identifier (pumps (fire ev s) ! k) = pump_identifier (pumps s ! k)
    \<and> pump_pid (pumps (fire ev s) ! k) = pump_pid (pumps s ! k)
    \<and> pump_islogin (pumps (fire ev s) ! k) = pump_islogin (pumps s ! k)
    \<and> pump_channel (pumps (fire ev s) ! k) = pump_channel (pumps s ! k)"
proof -
  obtain e v where ev: "ev = (e, v)" by (cases ev)
  show ?thesis
  proof (cases v)
    case (Request args)
    obtain new where "pumps (snd (handle e args s)) = pumps s @ new"
      using handle_pumps by blast
    with assms ev Request show ?thesis
      by (cases "handle e args s") (auto simp: nth_append split: outcome.splits)
  next
    case (Read j data)
    with assms ev show ?thesis
      by (auto simp: read_forever_def print_output_eq cleanup_frame Let_def nth_list_update)
  next
    case (Wake j)
    have "pumps (autopoll e j s) = pumps s"
      by (auto simp: autopoll_def send_def send_all_eq Let_def
          split: aptask.splits sum.splits prod.splits option.splits dest: poll_fields)
    with assms ev Wake show ?thesis by simp
  qed
qed

lemma pump_kept_run:
  assumes "k < length (pumps s)"
  shows "k < length (pumps (run evs s))
    \<and> pump_identifier (pumps (run evs s) ! k) = pump_identifier (pumps s ! k)
    \<and> pump_pid (pumps (run evs s) ! k) = pump_pid (pumps s ! k)
    \<and> pump_islogin (pumps (run evs s) ! k) = pump_islogin (pumps s ! k)
    \<and> pump_channel (pumps (run evs s) ! k) = pump_channel (pumps s ! k)"
  using assms
proof (induction evs arbitrary: s)
  case Nil
  then show ?case by simp
next
  case (Cons ev evs)
  from pump_kept_fire [OF Cons.prems, of ev]
  have kept: "k < length (pumps (step ev s))
    \<and> pump_identifier (pumps (step ev s) ! k) = pump_identifier (pumps s ! k)
    \<and> pump_pid (pumps (step ev s) ! k) = pump_pid (pumps s ! k)
    \<and> pump_islogin (pumps (step ev s) ! k) = pump_islogin (pumps s ! k)
    \<and> pump_channel (pumps (step ev s) ! k) = pump_channel (pumps s ! k)"
    using Cons.prems by (simp add: step_def)
  then have "k < length (pumps (step ev s))" by simp
  from Cons.IH [OF this] kept show ?case by simp
qed

lemma spawn_request_pump:
  assumes "verb = ''login'' \<or> verb = ''run''"
    and "length (pumps s0) < length (pumps (step (e1, Request (verb # args)) s0))"
  shows "\<exists>pid. spawn e1 = Some pid
    \<and> pumps (step (e1, Request (verb # args)) s0) ! length (pumps s0)
        = \<lparr>pump_identifier = randint e1, pump_pid = pid, pump_islogin = (verb = ''login''),
           pump_channel = 1, pump_done = False\<rparr>"
  using assms
  by (auto simp: step_def handle_def HANDLERS_def handle_login_def handle_run_def finish_def
      cleanup_frame handle_read_def run_tty_proc_def writer_defs Let_def
      split: if_splits list.splits option.splits)

text \<open>
  C7: a process is started by a \<^verbatim>\<open>login\<close> or a \<^verbatim>\<open>run\<close> request (the request starts a
  pump, so the spawn succeeded); after any further events, its pump reads a non-empty
  chunk while the agent is not quitting. What is written then is the header
  \<^verbatim>\<open>%output <identifier> <pid> <channel>\<close>, with the identifier of the spawn request,
  the pid of the child and the channel \<^verbatim>\<open>-1\<close> for login and \<^verbatim>\<open>1\<close> for run; the
  base64 text of the chunk in lines of 128 characters, the last one of 1 to 128; and
  \<^verbatim>\<open>%end <identifier>\<close>.
\<close>

theorem child_output_frame:
  assumes "verb = ''login'' \<or> verb = ''run''"
    and "s1 = step (e1, Request (verb # args)) s0"
    and "length (pumps s0) < length (pumps s1)"
    and "s = run evs s1"
    and "\<not> pump_done (pumps s ! length (pumps s0))"
    and "data \<noteq> []"
    and "\<not> QUITTING s"
  shows "\<exists>pid parts. spawn e1 = Some pid
    \<and> stdout (read_forever e (length (pumps s0)) data s)
        = stdout s
          @ [''%output '' @ str_int (randint e1) @ '' '' @ str_int pid @ '' ''
               @ (if verb = ''login'' then ''-1'' else ''1'')]
          @ parts
          @ [''%end '' @ str_int (randint e1)]
    \<and> concat parts = b64encode data
    \<and> parts \<noteq> []
    \<and> (\<forall>l \<in> set (butlast parts). length l = 128)
    \<and> 0 < length (last parts) \<and> length (last parts) \<le> 128"
proof -
  let ?k = "length (pumps s0)"
  from spawn_request_pump [OF assms(1)] assms(2,3)
  obtain pid where pid: "spawn e1 = Some pid"
    and p1: "pumps s1 ! ?k = \<lparr>pump_identifier = randint e1, pump_pid = pid,
        pump_islogin = (verb = ''login''), pump_channel = 1, pump_done = False\<rparr>"
    by blast
  from pump_kept_run [OF assms(3), of evs] assms(4) p1
  have k: "?k < length (pumps s)"
    and p: "pump_identifier (pumps s ! ?k) = randint e1" "pump_pid (pumps s ! ?k) = pid"
      "pump_islogin (pumps s ! ?k) = (verb = ''login'')" "pump_channel (pumps s ! ?k) = 1"
    by simp_all
  let ?parts = "slices 0 128 (b64encode data)"
  have one: "str_int 1 = ''1''"
    by (simp add: str_int_def str_nat.simps)
  from assms(6) have "length data \<noteq> 0" by simp
  with k p assms(5,7) one
  have out: "stdout (read_forever e ?k data s)
        = stdout s
          @ [''%output '' @ str_int (randint e1) @ '' '' @ str_int pid @ '' ''
               @ (if verb = ''login'' then ''-1'' else ''1'')]
          @ ?parts
          @ [''%end '' @ str_int (randint e1)]"
    by (simp add: read_forever_def print_output_eq Let_def)
  have c: "concat ?parts = b64encode data"
    by (simp add: slices_concat)
  from assms(6) have ne: "?parts \<noteq> []"
    by (simp add: slices_nonempty b64encode_nonempty)
  have full: "\<forall>l \<in> set (butlast ?parts). length l = 128"
    by (auto dest: slices_butlast_full)
  from ne have "last ?parts \<in> set ?parts" by simp
  then have "0 < length (last ?parts) \<and> length (last ?parts) \<le> 128"
    by (rule slices_lengths)
  with pid out c ne full show ?thesis by blast
qed

lemma run_cat_state:
  "step (env0\<lparr>spawn := Some 12\<rparr>, Request [''run'', ''cat'']) init
     = init\<lparr>PROCESSES := [12 \<mapsto> run_tty_proc 12],
            pumps := [\<lparr>pump_identifier = 7, pump_pid = 12, pump_islogin = False,
                        pump_channel = 1, pump_done = False\<rparr>],
            stdout := [''begin 7'', ''12'', ''end 7 0'']\<rparr>"
  by (simp add: step_def handle_def HANDLERS_def handle_run_def finish_def cleanup_def
      handle_read_def run_tty_proc_def writer_defs int_text_defs init_def env0_def)

theorem child_output_frame_witness:
  "(''run'' = ''login'' \<or> ''run'' = ''run'')
   \<and> length (pumps init)
       < length (pumps (step (env0\<lparr>spawn := Some 12\<rparr>, Request [''run'', ''cat'']) init))
   \<and> \<not> pump_done
         (pumps (run [] (step (env0\<lparr>spawn := Some 12\<rparr>, Request [''run'', ''cat'']) init))
            ! length (pumps init))
   \<and> [0x68, 0x69, 0x0A] \<noteq> ([] :: byte list)
   \<and> \<not> QUITTING (run [] (step (env0\<lparr>spawn := Some 12\<rparr>, Request [''run'', ''cat'']) init))
   \<and> (\<exists>parts.
        stdout (read_forever env0 (length (pumps init)) [0x68, 0x69, 0x0A]
                  (run [] (step (env0\<lparr>spawn := Some 12\<rparr>, Request [''run'', ''cat'']) init)))
          = [''begin 7'', ''12'', ''end 7 0''] @ [''%output 7 12 1''] @ parts @ [''%end 7'']
        \<and> concat parts = ''aGkK'' \<and> parts \<noteq> []
        \<and> (\<forall>l \<in> set (butlast parts). length l = 128)
        \<and> 0 < length (last parts) \<and> length (last parts) \<le> 128)"
proof -
  let ?e1 = "env0\<lparr>spawn := Some 12\<rparr>"
  let ?s1 = "step (?e1, Request [''run'', ''cat'']) init"
  have h1: "''run'' = ''login'' \<or> ''run'' = ''run''"
    by simp
  have h3: "length (pumps init) < length (pumps ?s1)"
    by (simp add: run_cat_state) (simp add: init_def)
  have h5: "\<not> pump_done (pumps (run [] ?s1) ! length (pumps init))"
    by (simp add: run_cat_state) (simp add: init_def)
  have h6: "[0x68, 0x69, 0x0A] \<noteq> ([] :: byte list)"
    by simp
  have h7: "\<not> QUITTING (run [] ?s1)"
    by (simp add: run_cat_state) (simp add: init_def)
  have vals: "str_int (randint ?e1) = ''7''" "str_int 12 = ''12''" "spawn ?e1 = Some 12"
    "b64encode [0x68, 0x69, 0x0A] = ''aGkK''"
    by (simp_all add: int_text_defs env0_def b64char_def)
  have out1: "stdout (run [] ?s1) = [''begin 7'', ''12'', ''end 7 0'']"
    by (simp add: run_cat_state)
  from child_output_frame [OF h1 refl h3 refl h5 h6 h7, of env0]
  obtain pid parts where "spawn ?e1 = Some pid"
    and "stdout (read_forever env0 (length (pumps init)) [0x68, 0x69, 0x0A] (run [] ?s1))
        = stdout (run [] ?s1)
          @ [''%output '' @ str_int (randint ?e1) @ '' '' @ str_int pid @ '' ''
               @ (if ''run'' = ''login'' then ''-1'' else ''1'')]
          @ parts
          @ [''%end '' @ str_int (randint ?e1)]"
    and "concat parts = b64encode [0x68, 0x69, 0x0A]"
    and "parts \<noteq> []"
    and "\<forall>l \<in> set (butlast parts). length l = 128"
    and "0 < length (last parts) \<and> length (last parts) \<le> 128"
    by blast
  with vals out1 have "stdout (read_forever env0 (length (pumps init)) [0x68, 0x69, 0x0A] (run [] ?s1))
          = [''begin 7'', ''12'', ''end 7 0''] @ [''%output 7 12 1''] @ parts @ [''%end 7'']
        \<and> concat parts = ''aGkK'' \<and> parts \<noteq> []
        \<and> (\<forall>l \<in> set (butlast parts). length l = 128)
        \<and> 0 < length (last parts) \<and> length (last parts) \<le> 128"
    by simp
  then have "\<exists>parts.
        stdout (read_forever env0 (length (pumps init)) [0x68, 0x69, 0x0A] (run [] ?s1))
          = [''begin 7'', ''12'', ''end 7 0''] @ [''%output 7 12 1''] @ parts @ [''%end 7'']
        \<and> concat parts = ''aGkK'' \<and> parts \<noteq> []
        \<and> (\<forall>l \<in> set (butlast parts). length l = 128)
        \<and> 0 < length (last parts) \<and> length (last parts) \<le> 128" ..
  with h1 h3 h5 h6 h7 show ?thesis
    by blast
qed

subsection \<open>The diff of two snapshots\<close>

lemma set_iter_set: "set (set_iter h ks) = set ks"
  by (simp add: set_iter_def)

lemma set_iter_distinct: "distinct (set_iter h ks)"
  by (simp add: set_iter_def)

lemma row_text_eq:
  "row_text (a, b, c, d, e) = a @ '' '' @ b @ '' '' @ c @ '' '' @ d @ '' '' @ e"
  by (simp add: row_text_def)

lemma dict_entry:
  assumes "distinct (keys d)" and "k \<in> set (keys d)"
  shows "(k, the (map_of d k)) \<in> set d"
proof -
  from assms(2) obtain v where "(k, v) \<in> set d"
    by (auto simp: keys_def)
  with assms(1) have "map_of d k = Some v"
    by (simp add: keys_def)
  with \<open>(k, v) \<in> set d\<close> show ?thesis by simp
qed

lemma dict_entry_iff:
  assumes "distinct (keys d)"
  shows "(k, v) \<in> set d \<longleftrightarrow> map_of d k = Some v"
  using assms by (auto simp: keys_def dest: map_of_SomeD)

text \<open>
  C5, as stated: the lines are \<^verbatim>\<open>+ pid ppid stat lstart command\<close>, \<^verbatim>\<open>- pid\<close> and
  \<^verbatim>\<open>~ pid ...\<close>, the marker and the pid a space apart. The generator writes the
  marker and the joined row with nothing between them.
\<close>

theorem diff_line_counterexample:
  "diff (\<lambda>k. 0) [(''1'', (''1'', ''0'', ''S'', ''Mon Jan 1 00:00:00 2024'', ''a''))] []
     = [''+1 0 S Mon Jan 1 00:00:00 2024 a'']
   \<and> diff (\<lambda>k. 0) [(''1'', (''1'', ''0'', ''S'', ''Mon Jan 1 00:00:00 2024'', ''a''))] []
     \<noteq> [''+ 1 0 S Mon Jan 1 00:00:00 2024 a'']
   \<and> diff (\<lambda>k. 0) [] [(''1'', (''1'', ''0'', ''S'', ''Mon Jan 1 00:00:00 2024'', ''a''))]
     = [''-1'']
   \<and> diff (\<lambda>k. 0) [] [(''1'', (''1'', ''0'', ''S'', ''Mon Jan 1 00:00:00 2024'', ''a''))]
     \<noteq> [''- 1'']"
  by (simp add: diff_def set_iter_def keys_def row_text_def)

text \<open>
  C5, amended: for two snapshots (dictionaries, each key once), the diff list is three
  runs in this order: one line \<^verbatim>\<open>+\<close> followed at once by the row's five fields joined
  by single spaces, for each pid in the current snapshot and not in the previous one; one
  line \<^verbatim>\<open>-\<close> followed at once by the pid, for each pid in the previous and not in the
  current one; one line \<^verbatim>\<open>~\<close> followed at once by the joined row of the current
  snapshot, for each pid in both whose rows differ.
\<close>

theorem diff_three_runs:
  assumes "distinct (keys results)"
  shows "\<exists>adds rems edits.
    diff h results previous
      = map (\<lambda>(pid, r). ''+'' @ row_text r) adds
        @ map (\<lambda>pid. ''-'' @ pid) rems
        @ map (\<lambda>(pid, r). ''~'' @ row_text r) edits
    \<and> distinct (map fst adds)
    \<and> set adds = {(pid, r). (pid, r) \<in> set results \<and> pid \<notin> set (keys previous)}
    \<and> distinct rems
    \<and> set rems = set (keys previous) - set (keys results)
    \<and> distinct (map fst edits)
    \<and> set edits = {(pid, r). (pid, r) \<in> set results \<and> pid \<in> set (keys previous)
                        \<and> map_of previous pid \<noteq> Some r}
    \<and> row_text (a, b, c, d, e) = a @ '' '' @ b @ '' '' @ c @ '' '' @ d @ '' '' @ e"
proof -
  let ?entry = "\<lambda>k. (k, the (map_of results k))"
  let ?ak = "set_iter h (filter (\<lambda>k. k \<notin> set (keys previous)) (keys results))"
  let ?rems = "set_iter h (filter (\<lambda>k. k \<notin> set (keys results)) (keys previous))"
  let ?ek = "filter (\<lambda>pid. pid \<in> set (keys previous) \<and> map_of results pid \<noteq> map_of previous pid)
               (keys results)"
  have eq: "diff h results previous
      = map (\<lambda>(pid, r). ''+'' @ row_text r) (map ?entry ?ak)
        @ map (\<lambda>pid. ''-'' @ pid) ?rems
        @ map (\<lambda>(pid, r). ''~'' @ row_text r) (map ?entry ?ek)"
    by (simp add: diff_def comp_def)
  have fst_a: "map fst (map ?entry ?ak) = ?ak" and fst_e: "map fst (map ?entry ?ek) = ?ek"
    by (simp_all add: comp_def)
  have da: "distinct (map fst (map ?entry ?ak))"
    unfolding fst_a by (rule set_iter_distinct)
  have de: "distinct (map fst (map ?entry ?ek))"
    unfolding fst_e using assms by simp
  have key_in: "pid \<in> set (keys results)" if "(pid, r) \<in> set results" for pid r
    using that by (force simp: keys_def)
  have sa: "set (map ?entry ?ak)
      = {(pid, r). (pid, r) \<in> set results \<and> pid \<notin> set (keys previous)}"
  proof (intro equalityI subsetI)
    fix x
    assume "x \<in> set (map ?entry ?ak)"
    then obtain k where k: "x = ?entry k" "k \<in> set (keys results)" "k \<notin> set (keys previous)"
      by (auto simp: set_iter_set)
    with dict_entry [OF assms k(2)]
    show "x \<in> {(pid, r). (pid, r) \<in> set results \<and> pid \<notin> set (keys previous)}"
      by simp
  next
    fix x
    assume "x \<in> {(pid, r). (pid, r) \<in> set results \<and> pid \<notin> set (keys previous)}"
    then obtain pid r where x: "x = (pid, r)" "(pid, r) \<in> set results"
      "pid \<notin> set (keys previous)"
      by auto
    from x(2) assms have "map_of results pid = Some r"
      by (simp add: dict_entry_iff)
    with x key_in [OF x(2)] show "x \<in> set (map ?entry ?ak)"
      by (simp add: set_iter_set image_iff)
  qed
  have se: "set (map ?entry ?ek)
      = {(pid, r). (pid, r) \<in> set results \<and> pid \<in> set (keys previous)
                        \<and> map_of previous pid \<noteq> Some r}"
  proof (intro equalityI subsetI)
    fix x
    assume "x \<in> set (map ?entry ?ek)"
    then obtain k where k: "x = ?entry k" "k \<in> set (keys results)" "k \<in> set (keys previous)"
      "map_of results k \<noteq> map_of previous k"
      by auto
    from dict_entry [OF assms k(2)] assms
    have "map_of results k = Some (the (map_of results k))"
      by (simp add: dict_entry_iff)
    with k dict_entry [OF assms k(2)]
    show "x \<in> {(pid, r). (pid, r) \<in> set results \<and> pid \<in> set (keys previous)
                        \<and> map_of previous pid \<noteq> Some r}"
      by auto
  next
    fix x
    assume "x \<in> {(pid, r). (pid, r) \<in> set results \<and> pid \<in> set (keys previous)
                        \<and> map_of previous pid \<noteq> Some r}"
    then obtain pid r where x: "x = (pid, r)" "(pid, r) \<in> set results"
      "pid \<in> set (keys previous)" "map_of previous pid \<noteq> Some r"
      by auto
    from x(2) assms have "map_of results pid = Some r"
      by (simp add: dict_entry_iff)
    with x key_in [OF x(2)] show "x \<in> set (map ?entry ?ek)"
      by (simp add: image_iff)
  qed
  have dr: "distinct ?rems"
    by (rule set_iter_distinct)
  have sr: "set ?rems = set (keys previous) - set (keys results)"
    by (auto simp: set_iter_set)
  from eq da sa dr sr de se row_text_eq show ?thesis
    by blast
qed

theorem diff_three_runs_witness:
  "distinct (keys [(''1'', (''1'', ''0'', ''S'', ''Mon Jan 1 00:00:00 2024'', ''a'')),
                   (''2'', (''2'', ''1'', ''R'', ''Mon Jan 1 00:00:01 2024'', ''b''))])
   \<and> diff (\<lambda>k. 0)
        [(''1'', (''1'', ''0'', ''S'', ''Mon Jan 1 00:00:00 2024'', ''a'')),
         (''2'', (''2'', ''1'', ''R'', ''Mon Jan 1 00:00:01 2024'', ''b''))]
        [(''2'', (''2'', ''1'', ''S'', ''Mon Jan 1 00:00:01 2024'', ''b'')),
         (''3'', (''3'', ''1'', ''S'', ''Mon Jan 1 00:00:02 2024'', ''c''))]
      = [''+1 0 S Mon Jan 1 00:00:00 2024 a'', ''-3'', ''~2 1 R Mon Jan 1 00:00:01 2024 b'']
   \<and> (\<exists>adds rems edits.
        diff (\<lambda>k. 0)
          [(''1'', (''1'', ''0'', ''S'', ''Mon Jan 1 00:00:00 2024'', ''a'')),
           (''2'', (''2'', ''1'', ''R'', ''Mon Jan 1 00:00:01 2024'', ''b''))]
          [(''2'', (''2'', ''1'', ''S'', ''Mon Jan 1 00:00:01 2024'', ''b'')),
           (''3'', (''3'', ''1'', ''S'', ''Mon Jan 1 00:00:02 2024'', ''c''))]
          = map (\<lambda>(pid, r). ''+'' @ row_text r) adds
            @ map (\<lambda>pid. ''-'' @ pid) rems
            @ map (\<lambda>(pid, r). ''~'' @ row_text r) edits
        \<and> distinct (map fst adds)
        \<and> set adds
            = {(pid, r).
                 (pid, r) \<in> set [(''1'', (''1'', ''0'', ''S'', ''Mon Jan 1 00:00:00 2024'', ''a'')),
                                (''2'', (''2'', ''1'', ''R'', ''Mon Jan 1 00:00:01 2024'', ''b''))]
                 \<and> pid \<notin> set (keys [(''2'', (''2'', ''1'', ''S'', ''Mon Jan 1 00:00:01 2024'', ''b'')),
                                      (''3'', (''3'', ''1'', ''S'', ''Mon Jan 1 00:00:02 2024'', ''c''))])}
        \<and> distinct rems
        \<and> set rems
            = set (keys [(''2'', (''2'', ''1'', ''S'', ''Mon Jan 1 00:00:01 2024'', ''b'')),
                         (''3'', (''3'', ''1'', ''S'', ''Mon Jan 1 00:00:02 2024'', ''c''))])
              - set (keys [(''1'', (''1'', ''0'', ''S'', ''Mon Jan 1 00:00:00 2024'', ''a'')),
                           (''2'', (''2'', ''1'', ''R'', ''Mon Jan 1 00:00:01 2024'', ''b''))])
        \<and> distinct (map fst edits)
        \<and> set edits
            = {(pid, r).
                 (pid, r) \<in> set [(''1'', (''1'', ''0'', ''S'', ''Mon Jan 1 00:00:00 2024'', ''a'')),
                                (''2'', (''2'', ''1'', ''R'', ''Mon Jan 1 00:00:01 2024'', ''b''))]
                 \<and> pid \<in> set (keys [(''2'', (''2'', ''1'', ''S'', ''Mon Jan 1 00:00:01 2024'', ''b'')),
                                      (''3'', (''3'', ''1'', ''S'', ''Mon Jan 1 00:00:02 2024'', ''c''))])
                 \<and> map_of [(''2'', (''2'', ''1'', ''S'', ''Mon Jan 1 00:00:01 2024'', ''b'')),
                            (''3'', (''3'', ''1'', ''S'', ''Mon Jan 1 00:00:02 2024'', ''c''))] pid
                     \<noteq> Some r}
        \<and> row_text (''1'', ''0'', ''S'', ''Mon Jan 1 00:00:00 2024'', ''a'')
            = ''1'' @ '' '' @ ''0'' @ '' '' @ ''S'' @ '' '' @ ''Mon Jan 1 00:00:00 2024'' @ '' ''
              @ ''a'')"
proof -
  let ?cur = "[(''1'', (''1'', ''0'', ''S'', ''Mon Jan 1 00:00:00 2024'', ''a'')),
               (''2'', (''2'', ''1'', ''R'', ''Mon Jan 1 00:00:01 2024'', ''b''))]"
  let ?prev = "[(''2'', (''2'', ''1'', ''S'', ''Mon Jan 1 00:00:01 2024'', ''b'')),
                (''3'', (''3'', ''1'', ''S'', ''Mon Jan 1 00:00:02 2024'', ''c''))]"
  have h: "distinct (keys ?cur)"
    by (simp add: keys_def)
  have v: "diff (\<lambda>k. 0) ?cur ?prev
      = [''+1 0 S Mon Jan 1 00:00:00 2024 a'', ''-3'', ''~2 1 R Mon Jan 1 00:00:01 2024 b'']"
    by (simp add: diff_def set_iter_def keys_def row_text_def)
  note t = diff_three_runs [OF h, where h = "\<lambda>k. 0" and previous = ?prev
      and a = "''1''" and b = "''0''" and c = "''S''" and d = "''Mon Jan 1 00:00:00 2024''"
      and e = "''a''"]
  from h v t show ?thesis
    by - (rule conjI, assumption, rule conjI, assumption, assumption)
qed

subsection \<open>The snapshot of a poll\<close>

lemma map_of_dict_set: "map_of (dict_set d k v) = (map_of d)(k \<mapsto> v)"
  by (induction d) (auto simp: fun_eq_iff)

lemma dict_get_dict_set:
  "dict_get (dict_set d k v) k' dflt = (if k' = k then v else dict_get d k' dflt)"
  by (simp add: dict_get_def map_of_dict_set)

lemma keys_dom: "set (keys d) = dom (map_of d)"
  by (simp add: keys_def dom_map_of_conv_image_fst)

lemma keys_dict_set: "set (keys (dict_set d k v)) = insert k (set (keys d))"
  by (simp add: keys_dom map_of_dict_set)

lemma distinct_dict_set: "distinct (keys d) \<Longrightarrow> distinct (keys (dict_set d k v))"
proof (induction d)
  case Nil
  then show ?case by (simp add: keys_def)
next
  case (Cons kv d)
  obtain k' v' where kv: "kv = (k', v')" by (cases kv)
  from Cons.prems kv have "distinct (keys d)" and fresh: "k' \<notin> set (keys d)"
    by (simp_all add: keys_def)
  then have "distinct (keys (dict_set d k v))" by (simp add: Cons.IH)
  moreover have "set (keys (dict_set d k v)) = insert k (set (keys d))"
    by (rule keys_dict_set)
  ultimately show ?case
    using kv fresh Cons.prems
    by (cases "k' = k") (auto simp: keys_def)
qed

lemma spec_row_of_snoc:
  "spec_row_of (acc @ [row]) = (spec_row_of acc)(row_pid row \<mapsto> row)"
  by (auto simp: spec_row_of_def fun_eq_iff)

text \<open>The first loop builds the index and the child lists of the rows it has taken.\<close>

lemma index_rows_spec:
  assumes "map_of index = spec_row_of acc"
    and "\<And>p. dict_get children p [] = map row_pid (filter (\<lambda>r. row_ppid r = p) acc)"
  shows "\<exists>children' index'.
    index_rows (map parse lines) (children, index) = (children', index')
    \<and> map_of index'
        = spec_row_of (acc @ filter (\<lambda>r. \<not> defunct r) (List.map_filter parse lines))
    \<and> (\<forall>p. dict_get children' p []
            = map row_pid (filter (\<lambda>r. row_ppid r = p)
                (acc @ filter (\<lambda>r. \<not> defunct r) (List.map_filter parse lines))))"
  using assms
proof (induction lines arbitrary: children index acc)
  case Nil
  then show ?case by (simp add: map_filter_simps)
next
  case (Cons line lines)
  show ?case
  proof (cases "parse line")
    case None
    with Cons.IH [OF Cons.prems] show ?thesis
      by (simp add: map_filter_simps)
  next
    case (Some row)
    show ?thesis
    proof (cases "defunct row")
      case True
      with Some Cons.IH [OF Cons.prems] show ?thesis
        by (simp add: map_filter_simps)
    next
      case False
      let ?children = "dict_set children (row_ppid row)
          (dict_get children (row_ppid row) [] @ [row_pid row])"
      let ?index = "dict_set index (row_pid row) row"
      have i: "map_of ?index = spec_row_of (acc @ [row])"
        by (simp add: map_of_dict_set spec_row_of_snoc Cons.prems(1))
      have c: "dict_get ?children p [] = map row_pid (filter (\<lambda>r. row_ppid r = p) (acc @ [row]))"
        for p
        by (simp add: dict_get_dict_set Cons.prems(2))
      from Cons.IH [OF i c] Some False show ?thesis
        by (simp add: map_filter_simps)
    qed
  qed
qed

lemma reach_step: "R\<^sup>* `` {a} = insert a (R\<^sup>* `` (R `` {a}))"
proof (intro equalityI subsetI)
  fix x
  assume "x \<in> R\<^sup>* `` {a}"
  then have "(a, x) \<in> R\<^sup>*" by simp
  then show "x \<in> insert a (R\<^sup>* `` (R `` {a}))"
    by (cases rule: converse_rtranclE) auto
next
  fix x
  assume "x \<in> insert a (R\<^sup>* `` (R `` {a}))"
  then show "x \<in> R\<^sup>* `` {a}"
    by (auto intro: converse_rtrancl_into_rtrancl)
qed

lemma reach_Cons: "R\<^sup>* `` set (c # l) = R\<^sup>* `` {c} \<union> R\<^sup>* `` set l"
  by auto

text \<open>
  What a call of \<open>add\<close> that returns has stored: the rows, from the index, of
  everything that the child lists reach from its pid.
\<close>

lemma add_spec:
  "add n children index pid res = Inr res' \<Longrightarrow>
     map_of res' k
       = (if k \<in> {(p, c). c \<in> set (dict_get children p [])}\<^sup>* `` {pid}
          then map_of index k else map_of res k)
     \<and> (distinct (keys res) \<longrightarrow> distinct (keys res'))"
  "add_each n children index l res = Inr res' \<Longrightarrow>
     map_of res' k
       = (if k \<in> {(p, c). c \<in> set (dict_get children p [])}\<^sup>* `` set l
          then map_of index k else map_of res k)
     \<and> (distinct (keys res) \<longrightarrow> distinct (keys res'))"
proof (induction n children index pid res and n children index l res
    arbitrary: res' and res' rule: add_add_each.induct)
  case (1 children index pid results)
  then show ?case by simp
next
  case (2 n children index pid results)
  let ?E = "{(p, c). c \<in> set (dict_get children p [])}"
  from "2.prems" obtain row where row: "map_of index pid = Some row"
    and rest: "add_each n children index (dict_get children pid []) (dict_set results pid row)
        = Inr res'"
    by (auto split: option.splits)
  from "2.IH" [OF row rest]
  have ih: "map_of res' k
       = (if k \<in> ?E\<^sup>* `` set (dict_get children pid [])
          then map_of index k else map_of (dict_set results pid row) k)"
    and d: "distinct (keys (dict_set results pid row)) \<longrightarrow> distinct (keys res')"
    by simp_all
  have "?E `` {pid} = set (dict_get children pid [])"
    by auto
  then have "?E\<^sup>* `` {pid} = insert pid (?E\<^sup>* `` set (dict_get children pid []))"
    using reach_step [of ?E pid] by simp
  with ih row d show ?case
    by (auto simp: map_of_dict_set distinct_dict_set)
next
  case (3 n children index results)
  then show ?case by simp
next
  case (4 n children index child rest results)
  let ?E = "{(p, c). c \<in> set (dict_get children p [])}"
  from "4.prems" obtain r1 where first: "add n children index child results = Inr r1"
    and others: "add_each n children index rest r1 = Inr res'"
    by (auto split: sum.splits)
  from "4.IH"(1) [OF first]
  have ih1: "map_of r1 k
       = (if k \<in> ?E\<^sup>* `` {child} then map_of index k else map_of results k)"
    and d1: "distinct (keys results) \<longrightarrow> distinct (keys r1)"
    by simp_all
  from "4.IH"(2) [OF first others]
  have ih2: "map_of res' k
       = (if k \<in> ?E\<^sup>* `` set rest then map_of index k else map_of r1 k)"
    and d2: "distinct (keys r1) \<longrightarrow> distinct (keys res')"
    by simp_all
  from ih1 ih2 d1 d2 show ?case
    unfolding reach_Cons by auto
qed


lemma add_registered_spec:
  "add_registered n children index pids res = Inr res' \<Longrightarrow>
     map_of res' k
       = (if k \<in> {(p, c). c \<in> set (dict_get children p [])}\<^sup>*
                 `` {t. \<exists>p \<in> set pids. t = str_int p \<and> t \<in> set (keys index)}
          then map_of index k else map_of res k)
     \<and> (distinct (keys res) \<longrightarrow> distinct (keys res'))"
proof (induction pids arbitrary: res)
  case Nil
  then show ?case by simp
next
  case (Cons pid pids)
  let ?E = "{(p, c). c \<in> set (dict_get children p [])}"
  let ?roots = "\<lambda>ps. {t. \<exists>p \<in> set ps. t = str_int p \<and> t \<in> set (keys index)}"
  show ?case
  proof (cases "str_int pid \<in> set (keys index)")
    case True
    with Cons.prems obtain r1 where first: "add n children index (str_int pid) res = Inr r1"
      and others: "add_registered n children index pids r1 = Inr res'"
      by (auto split: sum.splits)
    from add_spec(1) [OF first]
    have ih1: "map_of r1 k
         = (if k \<in> ?E\<^sup>* `` {str_int pid} then map_of index k else map_of res k)"
      and d1: "distinct (keys res) \<longrightarrow> distinct (keys r1)"
      by simp_all
    from Cons.IH [OF others]
    have ih2: "map_of res' k
         = (if k \<in> ?E\<^sup>* `` ?roots pids then map_of index k else map_of r1 k)"
      and d2: "distinct (keys r1) \<longrightarrow> distinct (keys res')"
      by simp_all
    from True have "?roots (pid # pids) = insert (str_int pid) (?roots pids)"
      by auto
    then have "?E\<^sup>* `` ?roots (pid # pids) = ?E\<^sup>* `` {str_int pid} \<union> ?E\<^sup>* `` ?roots pids"
      by auto
    with ih1 ih2 d1 d2 show ?thesis
      by auto
  next
    case False
    with Cons.prems have others: "add_registered n children index pids res = Inr res'"
      by simp
    from False have "?roots (pid # pids) = ?roots pids"
      by auto
    with Cons.IH [OF others] show ?thesis
      by simp
  qed
qed

lemma find_rev_dom: "{k. find (\<lambda>r. f r = k) (rev rows) \<noteq> None} = f ` set rows"
  by (auto simp: find_None_iff)

lemma spec_row_of_dom: "dom (spec_row_of rows) = row_pid ` set rows"
  unfolding dom_def spec_row_of_def by (rule find_rev_dom)

lemma child_lists_edges:
  "{(p, c). c \<in> set (map g (filter (\<lambda>r. f r = p) rows))} = {(f r, g r) | r. r \<in> set rows}"
  by auto

lemma reach_roots:
  "R\<^sup>* `` {t. \<exists>p \<in> A. t = f p \<and> t \<in> K}
     = (\<Union>p \<in> A. if f p \<in> K then R\<^sup>* `` {f p} else {})"
  by (auto split: if_splits)

text \<open>
  The snapshot as a dictionary: when \<^verbatim>\<open>procmon_parse\<close> returns (the walk over the child
  index ends within the recursion limit), it has a row for exactly the tracked pids: the
  registered pids (as text) that have a row, and their transitive descendants through the
  child index, the union over the registered roots. The row of a pid is the last row of
  the output with that pid, among the rows whose line matches the pattern and whose
  command is not in parentheses.
\<close>

lemma snapshot_is_tracked_subtrees:
  assumes "procmon_parse e output s = Inr (ls, s')"
  shows "map_of (LASTPS s') pid
           = (if pid \<in> spec_tracked (REGISTERED s) (spec_rows output)
              then spec_row_of (spec_rows output) pid else None)
         \<and> distinct (keys (LASTPS s'))"
proof -
  let ?rows = "spec_rows output"
  have "map_of [] = spec_row_of []"
    by (simp add: spec_row_of_def fun_eq_iff)
  moreover have "dict_get [] p [] = map row_pid (filter (\<lambda>r. row_ppid r = p) [])" for p
    by (simp add: dict_get_def)
  ultimately obtain children index
    where ir: "index_rows (map parse (split_nl output)) ([], []) = (children, index)"
      and index: "map_of index = spec_row_of ?rows"
      and kids: "\<And>p. dict_get children p [] = map row_pid (filter (\<lambda>r. row_ppid r = p) ?rows)"
    using index_rows_spec [of "[]" "[]" "[]" "split_nl output"]
    by (auto simp: spec_rows_def)
  let ?E = "{(p, c). c \<in> set (dict_get children p [])}"
  from assms ir obtain results
    where walk: "add_registered (frames_left e) children index (REGISTERED s) [] = Inr results"
      and s': "LASTPS s' = results"
    by (auto simp: procmon_parse_def Let_def split: sum.splits)
  have edges: "?E = spec_child_edges ?rows"
    unfolding kids spec_child_edges_def by (rule child_lists_edges)
  have ks: "set (keys index) = row_pid ` set ?rows"
    by (simp add: keys_dom index spec_row_of_dom)
  have "?E\<^sup>* `` {t. \<exists>p \<in> set (REGISTERED s). t = str_int p \<and> t \<in> set (keys index)}
      = spec_tracked (REGISTERED s) ?rows"
    unfolding edges ks spec_tracked_def spec_subtree_def by (rule reach_roots)
  with add_registered_spec [OF walk, of pid] s' index show ?thesis
    by (simp add: keys_def)
qed

lemma find_distinct_key:
  "distinct (map f xs) \<Longrightarrow> find (\<lambda>r. f r = k) xs = Some r \<longleftrightarrow> r \<in> set xs \<and> f r = k"
  by (induction xs) auto

lemma spec_row_of_distinct:
  assumes "distinct (map row_pid rows)"
  shows "spec_row_of rows pid = Some r \<longleftrightarrow> r \<in> set rows \<and> row_pid r = pid"
proof -
  from assms have "distinct (map row_pid (rev rows))"
    by (simp add: rev_map [symmetric])
  from find_distinct_key [OF this, of pid r] show ?thesis
    by (simp add: spec_row_of_def)
qed

text \<open>
  C6: \<^verbatim>\<open>ps\<close> prints one line for a process, so the rows of its output have pairwise
  different pids. For every such output on which \<^verbatim>\<open>procmon_parse\<close> returns, the rows of
  the snapshot are exactly the rows of the output (the line matches the pattern, the
  command is not in parentheses) whose pid is tracked: a registered pid (as text) that
  has a row, or a transitive descendant of one through the child index, the union over
  the registered roots. Each of these rows is stored under its pid, and no pid twice.
\<close>

theorem snapshot_rows_of_tracked_subtrees:
  assumes "procmon_parse e output s = Inr (ls, s')"
    and "distinct (map row_pid (spec_rows output))"
  shows "snd ` set (LASTPS s')
           = {r \<in> set (spec_rows output).
                row_pid r \<in> spec_tracked (REGISTERED s) (spec_rows output)}
         \<and> set (LASTPS s')
           = (\<lambda>r. (row_pid r, r)) `
               {r \<in> set (spec_rows output).
                  row_pid r \<in> spec_tracked (REGISTERED s) (spec_rows output)}
         \<and> distinct (keys (LASTPS s'))"
proof -
  let ?rows = "spec_rows output"
  let ?T = "spec_tracked (REGISTERED s) ?rows"
  have look: "map_of (LASTPS s') pid = (if pid \<in> ?T then spec_row_of ?rows pid else None)" for pid
    using snapshot_is_tracked_subtrees [OF assms(1), of pid] by simp
  have d: "distinct (keys (LASTPS s'))"
    using snapshot_is_tracked_subtrees [OF assms(1), of "[]"] by simp
  then have entry: "(k, r) \<in> set (LASTPS s') \<longleftrightarrow> map_of (LASTPS s') k = Some r" for k r
    by (simp add: keys_def)
  have mem: "(k, r) \<in> set (LASTPS s') \<longleftrightarrow> r \<in> set ?rows \<and> row_pid r = k \<and> k \<in> ?T" for k r
    unfolding entry look using spec_row_of_distinct [OF assms(2), of k r] by auto
  have whole: "set (LASTPS s') = (\<lambda>r. (row_pid r, r)) ` {r \<in> set ?rows. row_pid r \<in> ?T}"
  proof (rule set_eqI)
    fix x :: "string \<times> row"
    obtain k r where x: "x = (k, r)"
      by (cases x)
    show "x \<in> set (LASTPS s') \<longleftrightarrow> x \<in> (\<lambda>r. (row_pid r, r)) ` {r \<in> set ?rows. row_pid r \<in> ?T}"
      unfolding x mem by auto
  qed
  have "snd ` set (LASTPS s') = {r \<in> set ?rows. row_pid r \<in> ?T}"
    unfolding whole by (simp add: image_image)
  with whole d show ?thesis
    by simp
qed

theorem snapshot_rows_of_tracked_subtrees_witness:
  "procmon_parse env0
     (''1 0 Ss Mon Jan 1 00:00:00 2024 init'' @ [CHR 0x0A]
      @ ''2 1 S Mon Jan 1 00:00:01 2024 sh'' @ [CHR 0x0A]
      @ ''3 2 Z Mon Jan 1 00:00:02 2024 (sh)'' @ [CHR 0x0A]
      @ ''9 0 S Mon Jan 1 00:00:03 2024 other'' @ [CHR 0x0A])
     (init\<lparr>REGISTERED := [1]\<rparr>)
   = Inr ([''+1 0 Ss Mon Jan 1 00:00:00 2024 init'', ''+2 1 S Mon Jan 1 00:00:01 2024 sh''],
          init\<lparr>REGISTERED := [1],
               LASTPS := [(''1'', (''1'', ''0'', ''Ss'', ''Mon Jan 1 00:00:00 2024'', ''init'')),
                          (''2'', (''2'', ''1'', ''S'', ''Mon Jan 1 00:00:01 2024'', ''sh''))]\<rparr>)
   \<and> distinct (map row_pid (spec_rows
         (''1 0 Ss Mon Jan 1 00:00:00 2024 init'' @ [CHR 0x0A]
          @ ''2 1 S Mon Jan 1 00:00:01 2024 sh'' @ [CHR 0x0A]
          @ ''3 2 Z Mon Jan 1 00:00:02 2024 (sh)'' @ [CHR 0x0A]
          @ ''9 0 S Mon Jan 1 00:00:03 2024 other'' @ [CHR 0x0A])))
   \<and> {r \<in> set (spec_rows
                (''1 0 Ss Mon Jan 1 00:00:00 2024 init'' @ [CHR 0x0A]
                 @ ''2 1 S Mon Jan 1 00:00:01 2024 sh'' @ [CHR 0x0A]
                 @ ''3 2 Z Mon Jan 1 00:00:02 2024 (sh)'' @ [CHR 0x0A]
                 @ ''9 0 S Mon Jan 1 00:00:03 2024 other'' @ [CHR 0x0A])).
          row_pid r \<in> spec_tracked (REGISTERED (init\<lparr>REGISTERED := [1]\<rparr>))
            (spec_rows
               (''1 0 Ss Mon Jan 1 00:00:00 2024 init'' @ [CHR 0x0A]
                @ ''2 1 S Mon Jan 1 00:00:01 2024 sh'' @ [CHR 0x0A]
                @ ''3 2 Z Mon Jan 1 00:00:02 2024 (sh)'' @ [CHR 0x0A]
                @ ''9 0 S Mon Jan 1 00:00:03 2024 other'' @ [CHR 0x0A]))}
       = {(''1'', ''0'', ''Ss'', ''Mon Jan 1 00:00:00 2024'', ''init''),
          (''2'', ''1'', ''S'', ''Mon Jan 1 00:00:01 2024'', ''sh'')}"
proof -
  let ?out = "''1 0 Ss Mon Jan 1 00:00:00 2024 init'' @ [CHR 0x0A]
      @ ''2 1 S Mon Jan 1 00:00:01 2024 sh'' @ [CHR 0x0A]
      @ ''3 2 Z Mon Jan 1 00:00:02 2024 (sh)'' @ [CHR 0x0A]
      @ ''9 0 S Mon Jan 1 00:00:03 2024 other'' @ [CHR 0x0A]"
  let ?r1 = "(''1'', ''0'', ''Ss'', ''Mon Jan 1 00:00:00 2024'', ''init'')"
  let ?r2 = "(''2'', ''1'', ''S'', ''Mon Jan 1 00:00:01 2024'', ''sh'')"
  let ?r3 = "(''3'', ''2'', ''Z'', ''Mon Jan 1 00:00:02 2024'', ''(sh)'')"
  let ?r9 = "(''9'', ''0'', ''S'', ''Mon Jan 1 00:00:03 2024'', ''other'')"
  let ?s' = "init\<lparr>REGISTERED := [1], LASTPS := [(''1'', ?r1), (''2'', ?r2)]\<rparr>"
  have p: "parse ''1 0 Ss Mon Jan 1 00:00:00 2024 init'' = Some ?r1"
    "parse ''2 1 S Mon Jan 1 00:00:01 2024 sh'' = Some ?r2"
    "parse ''3 2 Z Mon Jan 1 00:00:02 2024 (sh)'' = Some ?r3"
    "parse ''9 0 S Mon Jan 1 00:00:03 2024 other'' = Some ?r9"
    "parse [] = None"
    by (simp_all add: parse_defs)
  have lines: "split_nl ?out
      = [''1 0 Ss Mon Jan 1 00:00:00 2024 init'', ''2 1 S Mon Jan 1 00:00:01 2024 sh'',
         ''3 2 Z Mon Jan 1 00:00:02 2024 (sh)'', ''9 0 S Mon Jan 1 00:00:03 2024 other'', []]"
    by simp
  have one: "str_int 1 = ''1''"
    by (simp add: int_text_defs)
  have h: "procmon_parse env0 ?out (init\<lparr>REGISTERED := [1]\<rparr>)
   = Inr ([''+1 0 Ss Mon Jan 1 00:00:00 2024 init'', ''+2 1 S Mon Jan 1 00:00:01 2024 sh''], ?s')"
    unfolding procmon_parse_def lines
    by (simp add: p one defunct_def row_command_def row_pid_def row_ppid_def dict_get_def
        keys_def env0_def numeral_eq_Suc diff_def set_iter_def row_text_def init_def)
  have rows: "spec_rows ?out = [?r1, ?r2, ?r9]"
    unfolding spec_rows_def lines
    by (simp add: map_filter_simps p defunct_def row_command_def)
  have d: "distinct (map row_pid (spec_rows ?out))"
    unfolding rows by (simp add: row_pid_def)
  from snapshot_rows_of_tracked_subtrees [OF h d]
  have c: "snd ` set (LASTPS ?s')
      = {r \<in> set (spec_rows ?out).
           row_pid r \<in> spec_tracked (REGISTERED (init\<lparr>REGISTERED := [1]\<rparr>)) (spec_rows ?out)}"
    by (rule conjunct1)
  have v: "snd ` set (LASTPS ?s') = {?r1, ?r2}"
    by simp
  have t: "{r \<in> set (spec_rows ?out).
           row_pid r \<in> spec_tracked (REGISTERED (init\<lparr>REGISTERED := [1]\<rparr>)) (spec_rows ?out)}
      = {?r1, ?r2}"
    by (rule trans [OF c [symmetric] v])
  from h d t show ?thesis
    by - (rule conjI, assumption, rule conjI, assumption, assumption)
qed

text \<open>
  The rows must have different pids for this: of two lines with the same pid the
  snapshot has the later row only, since the index is a dictionary keyed by pid.
\<close>

lemma snapshot_repeated_pid:
  "\<exists>ls s'.
     procmon_parse env0
       (''1 0 S Mon Jan 1 00:00:00 2024 a'' @ [CHR 0x0A] @ ''1 0 R Mon Jan 1 00:00:00 2024 a'')
       (init\<lparr>REGISTERED := [1]\<rparr>) = Inr (ls, s')
     \<and> (''1'', ''0'', ''S'', ''Mon Jan 1 00:00:00 2024'', ''a'')
         \<in> {r \<in> set (spec_rows (''1 0 S Mon Jan 1 00:00:00 2024 a'' @ [CHR 0x0A]
                                   @ ''1 0 R Mon Jan 1 00:00:00 2024 a'')).
              row_pid r \<in> spec_tracked (REGISTERED (init\<lparr>REGISTERED := [1]\<rparr>))
                (spec_rows (''1 0 S Mon Jan 1 00:00:00 2024 a'' @ [CHR 0x0A]
                            @ ''1 0 R Mon Jan 1 00:00:00 2024 a''))}
     \<and> (''1'', ''0'', ''S'', ''Mon Jan 1 00:00:00 2024'', ''a'') \<notin> snd ` set (LASTPS s')"
proof -
  let ?out = "''1 0 S Mon Jan 1 00:00:00 2024 a'' @ [CHR 0x0A] @ ''1 0 R Mon Jan 1 00:00:00 2024 a''"
  let ?r1 = "(''1'', ''0'', ''S'', ''Mon Jan 1 00:00:00 2024'', ''a'')"
  let ?r2 = "(''1'', ''0'', ''R'', ''Mon Jan 1 00:00:00 2024'', ''a'')"
  have p1: "parse ''1 0 S Mon Jan 1 00:00:00 2024 a'' = Some ?r1"
    and p2: "parse ''1 0 R Mon Jan 1 00:00:00 2024 a'' = Some ?r2"
    by (simp_all add: parse_defs)
  have lines: "split_nl ?out
      = [''1 0 S Mon Jan 1 00:00:00 2024 a'', ''1 0 R Mon Jan 1 00:00:00 2024 a'']"
    by simp
  have nd: "\<not> defunct ?r1" "\<not> defunct ?r2"
    by (simp_all add: defunct_def row_command_def)
  have one: "str_int 1 = ''1''"
    by (simp add: int_text_defs)
  have rows: "spec_rows ?out = [?r1, ?r2]"
    unfolding spec_rows_def lines by (simp add: map_filter_simps p1 p2 nd)
  have run: "procmon_parse env0 ?out (init\<lparr>REGISTERED := [1]\<rparr>)
      = Inr ([''+1 0 R Mon Jan 1 00:00:00 2024 a''],
             init\<lparr>REGISTERED := [1], LASTPS := [(''1'', ?r2)]\<rparr>)"
    unfolding procmon_parse_def lines
    by (simp add: p1 p2 nd one row_pid_def row_ppid_def dict_get_def keys_def env0_def
        numeral_eq_Suc diff_def set_iter_def row_text_def init_def)
  have "''1'' \<in> spec_tracked [1] [?r1, ?r2]"
    by (simp add: spec_tracked_def spec_subtree_def one row_pid_def)
  then have mem: "?r1 \<in> {r \<in> set (spec_rows ?out).
      row_pid r \<in> spec_tracked (REGISTERED (init\<lparr>REGISTERED := [1]\<rparr>)) (spec_rows ?out)}"
    unfolding rows by (simp add: row_pid_def)
  have "?r1 \<notin> snd ` set (LASTPS (init\<lparr>REGISTERED := [1], LASTPS := [(''1'', ?r2)]\<rparr>))"
    by simp
  with run mem show ?thesis
    by blast
qed

subsection \<open>When the walk over the child index returns\<close>

text \<open>
  \<open>add\<close> returns when the child lists lead downwards in some rank that stays below
  the number of calls the recursion limit allows, as in a process tree that is not
  deeper than that; and it cannot return for a pid that is its own child, whatever the
  limit.
\<close>

lemma add_returns:
  "(\<And>p c. c \<in> set (dict_get children p []) \<Longrightarrow> rk c < (rk p :: nat))
    \<Longrightarrow> (\<And>p c. c \<in> set (dict_get children p []) \<Longrightarrow> c \<in> dom (map_of index))
    \<Longrightarrow> pid \<in> dom (map_of index) \<Longrightarrow> rk pid < n
    \<Longrightarrow> \<exists>res'. add n children index pid res = Inr res'"
  "(\<And>p c. c \<in> set (dict_get children p []) \<Longrightarrow> rk c < (rk p :: nat))
    \<Longrightarrow> (\<And>p c. c \<in> set (dict_get children p []) \<Longrightarrow> c \<in> dom (map_of index))
    \<Longrightarrow> (\<And>c. c \<in> set l \<Longrightarrow> c \<in> dom (map_of index) \<and> rk c < n)
    \<Longrightarrow> \<exists>res'. add_each n children index l res = Inr res'"
proof (induction n children index pid res and n children index l res
    rule: add_add_each.induct)
  case (1 children index pid results)
  then show ?case by simp
next
  case (2 n children index pid results)
  from "2.prems"(3) obtain row where row: "map_of index pid = Some row"
    by auto
  have "\<exists>res'. add_each n children index (dict_get children pid []) (dict_set results pid row)
      = Inr res'"
  proof (rule "2.IH" [OF row])
    fix c
    assume c: "c \<in> set (dict_get children pid [])"
    from "2.prems"(1) [OF c] "2.prems"(2) [OF c] "2.prems"(4)
    show "c \<in> dom (map_of index) \<and> rk c < n"
      by simp
  qed (use "2.prems" in auto)
  with row show ?case
    by simp
next
  case (3 n children index results)
  show ?case by simp
next
  case (4 n children index child rest results)
  from "4.prems"(3) [of child] have child: "child \<in> dom (map_of index)" "rk child < n"
    by simp_all
  have "\<exists>r1. add n children index child results = Inr r1"
    by (rule "4.IH"(1)) (use "4.prems" child in auto)
  then obtain r1 where first: "add n children index child results = Inr r1"
    by blast
  have "\<exists>res'. add_each n children index rest r1 = Inr res'"
    by (rule "4.IH"(2) [OF first]) (use "4.prems" in auto)
  with first show ?case
    by simp
qed

lemma add_registered_returns:
  assumes "\<And>p c. c \<in> set (dict_get children p []) \<Longrightarrow> rk c < (rk p :: nat)"
    and "\<And>p c. c \<in> set (dict_get children p []) \<Longrightarrow> c \<in> dom (map_of index)"
    and "\<And>k. k \<in> dom (map_of index) \<Longrightarrow> rk k < n"
  shows "\<exists>res'. add_registered n children index pids res = Inr res'"
proof (induction pids arbitrary: res)
  case Nil
  show ?case by simp
next
  case (Cons pid pids)
  show ?case
  proof (cases "str_int pid \<in> set (keys index)")
    case True
    then have "str_int pid \<in> dom (map_of index)"
      by (simp add: keys_dom)
    then have below: "rk (str_int pid) < n"
      by (rule assms(3))
    have "\<exists>r1. add n children index (str_int pid) res = Inr r1"
    proof (rule add_returns(1) [where rk = rk])
      fix p c
      assume "c \<in> set (dict_get children p [])"
      then show "rk c < rk p" by (rule assms(1))
    next
      fix p c
      assume "c \<in> set (dict_get children p [])"
      then show "c \<in> dom (map_of index)" by (rule assms(2))
    next
      show "str_int pid \<in> dom (map_of index)" by fact
    next
      show "rk (str_int pid) < n" by fact
    qed
    then obtain r1 where "add n children index (str_int pid) res = Inr r1"
      by blast
    with True Cons.IH [of r1] show ?thesis
      by simp
  next
    case False
    with Cons.IH [of res] show ?thesis
      by simp
  qed
qed

text \<open>
  So \<^verbatim>\<open>procmon_parse\<close> returns a snapshot whenever the rows can be ranked so that every
  row ranks below the row of its ppid, with all ranks below the limit.
\<close>

lemma procmon_parse_returns:
  assumes down: "\<And>r. r \<in> set (spec_rows output) \<Longrightarrow> rk (row_pid r) < (rk (row_ppid r) :: nat)"
    and bound: "\<And>r. r \<in> set (spec_rows output) \<Longrightarrow> rk (row_pid r) < frames_left e"
  shows "\<exists>ls s'. procmon_parse e output s = Inr (ls, s')"
proof -
  let ?rows = "spec_rows output"
  have "map_of [] = spec_row_of []"
    by (simp add: spec_row_of_def fun_eq_iff)
  moreover have "dict_get [] p [] = map row_pid (filter (\<lambda>r. row_ppid r = p) [])" for p
    by (simp add: dict_get_def)
  ultimately obtain children index
    where ir: "index_rows (map parse (split_nl output)) ([], []) = (children, index)"
      and index: "map_of index = spec_row_of ?rows"
      and kids: "\<And>p. dict_get children p [] = map row_pid (filter (\<lambda>r. row_ppid r = p) ?rows)"
    using index_rows_spec [of "[]" "[]" "[]" "split_nl output"]
    by (auto simp: spec_rows_def)
  have dom: "dom (map_of index) = row_pid ` set ?rows"
    by (simp add: index spec_row_of_dom)
  have a: "rk c < rk p" if "c \<in> set (dict_get children p [])" for p c
    using that down unfolding kids by auto
  have b: "c \<in> dom (map_of index)" if "c \<in> set (dict_get children p [])" for p c
    using that unfolding kids dom by auto
  have c: "rk k < frames_left e" if "k \<in> dom (map_of index)" for k
    using that bound unfolding dom by auto
  have "\<exists>results.
      add_registered (frames_left e) children index (REGISTERED s) [] = Inr results"
  proof (rule add_registered_returns [where rk = rk])
    fix p c
    assume "c \<in> set (dict_get children p [])"
    then show "rk c < rk p" by (rule a)
  next
    fix p c
    assume "c \<in> set (dict_get children p [])"
    then show "c \<in> dom (map_of index)" by (rule b)
  next
    fix k
    assume "k \<in> dom (map_of index)"
    then show "rk k < frames_left e" by (rule c)
  qed
  then obtain results
    where "add_registered (frames_left e) children index (REGISTERED s) [] = Inr results"
    by blast
  with ir show ?thesis
    by (simp add: procmon_parse_def Let_def)
qed

lemma add_each_fails:
  assumes "\<And>res. \<exists>x. add n children index pid res = Inl x" and "pid \<in> set l"
  shows "\<exists>x. add_each n children index l res = Inl x"
  using assms(2)
proof (induction l arbitrary: res)
  case Nil
  then show ?case by simp
next
  case (Cons child rest)
  show ?case
  proof (cases "add n children index child res")
    case (Inl x)
    then show ?thesis by simp
  next
    case (Inr r1)
    with assms(1) [of res] have "child \<noteq> pid"
      by auto
    with Cons.prems have "pid \<in> set rest"
      by simp
    from Cons.IH [OF this, of r1] Inr show ?thesis
      by simp
  qed
qed

lemma add_own_child_fails:
  assumes "pid \<in> set (dict_get children pid [])"
  shows "\<exists>x. add n children index pid res = Inl x"
proof (induction n arbitrary: res)
  case 0
  show ?case by simp
next
  case (Suc n)
  show ?case
  proof (cases "map_of index pid")
    case None
    then show ?thesis by simp
  next
    case (Some row)
    from add_each_fails [of n children index pid, OF Suc.IH assms]
    obtain x where "add_each n children index (dict_get children pid []) (dict_set res pid row)
        = Inl x"
      by blast
    with Some show ?thesis by simp
  qed
qed

subsection \<open>Nothing is written once the agent is quitting\<close>

lemma cleanup_each_quitting:
  "QUITTING s \<Longrightarrow> stdout (cleanup_each e c s) = stdout s"
  by (induction c arbitrary: s) (auto simp: send_def Let_def split: option.splits)

lemma cleanup_quitting: "QUITTING s \<Longrightarrow> stdout (cleanup e s) = stdout s"
  by (simp add: cleanup_def cleanup_each_quitting)

lemma handler_quitting:
  assumes "HANDLERS cmd = Some f" and "QUITTING s"
  shows "stdout (snd (f e i a s)) = stdout s \<and> QUITTING (snd (f e i a s))"
proof -
  have "stdout (snd (handle_poll e i a s)) = stdout s \<and> QUITTING (snd (handle_poll e i a s))"
    using assms(2)
    by (auto simp: handle_poll_def writer_defs send_all_eq Let_def
        split: sum.splits prod.splits option.splits dest: poll_fields)
  with assms show ?thesis
    by (auto simp: HANDLERS_def handle_run_def handle_login_def handle_send_def handle_kill_def
        handle_quit_def handle_register_def handle_deregister_def handle_reset_def
        handle_autopoll_def writer_defs handle_read_def register_def deregister_def
        Let_def split: if_splits option.splits list.splits)
qed

lemma handle_quitting:
  assumes "QUITTING s"
  shows "stdout (snd (handle e args s)) = stdout s \<and> QUITTING (snd (handle e args s))"
proof (cases args)
  case Nil
  with assms show ?thesis by (simp add: handle_def)
next
  case (Cons cmd rest)
  show ?thesis
  proof (cases "HANDLERS cmd")
    case None
    with Cons assms show ?thesis by (simp add: handle_def writer_defs)
  next
    case (Some f)
    from handler_quitting [OF Some assms, of e "randint e" rest]
    have "stdout (snd (f e (randint e) rest s)) = stdout s"
      and "QUITTING (snd (f e (randint e) rest s))"
      by simp_all
    with Cons Some show ?thesis
      by (cases "f e (randint e) rest s")
        (auto simp: handle_def finish_def cleanup_frame cleanup_quitting split: outcome.splits)
  qed
qed

lemma autopoll_quitting:
  assumes "QUITTING s"
  shows "stdout (autopoll e k s) = stdout s \<and> QUITTING (autopoll e k s)"
  using assms
  by (auto simp: autopoll_def send_def send_all_eq Let_def
      split: aptask.splits sum.splits prod.splits option.splits dest: poll_fields)

lemma read_forever_quitting:
  assumes "QUITTING s"
  shows "stdout (read_forever e k data s) = stdout s \<and> QUITTING (read_forever e k data s)"
  using assms
  by (simp add: read_forever_def print_output_eq cleanup_frame cleanup_quitting Let_def)

lemma fire_quitting:
  assumes "QUITTING s"
  shows "stdout (fire ev s) = stdout s \<and> QUITTING (fire ev s)"
proof -
  obtain e v where ev: "ev = (e, v)" by (cases ev)
  show ?thesis
  proof (cases v)
    case (Request args)
    with ev handle_quitting [OF assms, of e args] show ?thesis
      by (cases "handle e args s") (auto split: outcome.splits)
  next
    case (Read k data)
    with ev read_forever_quitting [OF assms] show ?thesis by simp
  next
    case (Wake k)
    with ev autopoll_quitting [OF assms] show ?thesis by simp
  qed
qed

lemma fold_fire_quitting:
  "QUITTING s \<Longrightarrow> stdout (fold fire evs s) = stdout s \<and> QUITTING (fold fire evs s)"
proof (induction evs arbitrary: s)
  case Nil
  then show ?case by simp
next
  case (Cons ev evs)
  from fire_quitting [OF Cons.prems, of ev]
  have "stdout (fire ev s) = stdout s" and q: "QUITTING (fire ev s)"
    by simp_all
  with Cons.IH [OF q] show ?case by simp
qed

lemma run_quitting:
  "QUITTING s \<Longrightarrow> stdout (run evs s) = stdout s \<and> QUITTING (run evs s)"
proof (induction evs arbitrary: s)
  case Nil
  then show ?case by simp
next
  case (Cons ev evs)
  from fire_quitting [OF Cons.prems, of ev] Cons.prems
  have "stdout (step ev s) = stdout s" and q: "QUITTING (step ev s)"
    by (simp_all add: step_def)
  with Cons.IH [OF q] show ?case by simp
qed

text \<open>
  C8: once \<^verbatim>\<open>QUITTING\<close> is true, no write adds a line to stdout: not \<^verbatim>\<open>send\<close> itself,
  not a begin, end or abort line, not a payload, not a frame of child output, not the
  terminate lines of \<^verbatim>\<open>cleanup\<close>; and no sequence of events (requests, reads of the
  pumps, resumptions of the autopoll task) does, whether or not the main loop has
  returned. The flag stays true.
\<close>

theorem quitting_squelches_output:
  assumes "QUITTING s"
  shows "stdout (send line s) = stdout s
    \<and> stdout (begin_msg i s) = stdout s
    \<and> stdout (end_msg i status s) = stdout s
    \<and> stdout (fail reason s) = stdout s
    \<and> stdout (send_all ls s) = stdout s
    \<and> stdout (print_output i pid channel islogin data s) = stdout s
    \<and> stdout (cleanup e s) = stdout s
    \<and> stdout (fold fire evs s) = stdout s \<and> QUITTING (fold fire evs s)
    \<and> stdout (run evs s) = stdout s \<and> QUITTING (run evs s)"
  using assms fold_fire_quitting [OF assms, of evs] run_quitting [OF assms, of evs]
  by (simp add: writer_defs send_all_eq print_output_eq cleanup_quitting)

theorem quitting_squelches_output_witness:
  "QUITTING (fire (env0, Request [''quit'']) init)
   \<and> stdout (send ''x'' (fire (env0, Request [''quit'']) init))
       = stdout (fire (env0, Request [''quit'']) init)
   \<and> stdout (print_output 7 12 1 False [0x68] (fire (env0, Request [''quit'']) init))
       = stdout (fire (env0, Request [''quit'']) init)
   \<and> stdout (fold fire
         [(env0\<lparr>spawn := Some 12\<rparr>, Request [''run'', ''cat'']), (env0, Read 0 [0x68]),
          (env0, Request [''poll'']), (env0, Wake 0)]
         (fire (env0, Request [''quit'']) init))
       = stdout (fire (env0, Request [''quit'']) init)
   \<and> stdout (fire (env0, Request [''quit'']) init) = [''begin 7'', ''end 7 0'']"
proof -
  have s: "fire (env0, Request [''quit'']) init
      = init\<lparr>QUITTING := True, stdout := [''begin 7'', ''end 7 0''], exit_status := Some 0\<rparr>"
    by (simp add: handle_def HANDLERS_def handle_quit_def finish_def cleanup_def writer_defs
        int_text_defs init_def env0_def)
  have h: "QUITTING (fire (env0, Request [''quit'']) init)"
    by (subst s) simp
  have v: "stdout (fire (env0, Request [''quit'']) init) = [''begin 7'', ''end 7 0'']"
    by (subst s) simp
  from quitting_squelches_output [OF h, where line = "''x''" and i = 7 and pid = 12
      and channel = 1 and islogin = False and data = "[0x68]" and status = 0
      and reason = "[]" and ls = "[]" and e = env0
      and evs = "[(env0\<lparr>spawn := Some 12\<rparr>, Request [''run'', ''cat'']), (env0, Read 0 [0x68]),
          (env0, Request [''poll'']), (env0, Wake 0)]"]
  have "stdout (send ''x'' (fire (env0, Request [''quit'']) init))
       = stdout (fire (env0, Request [''quit'']) init)"
    and "stdout (print_output 7 12 1 False [0x68] (fire (env0, Request [''quit'']) init))
       = stdout (fire (env0, Request [''quit'']) init)"
    and "stdout (fold fire
         [(env0\<lparr>spawn := Some 12\<rparr>, Request [''run'', ''cat'']), (env0, Read 0 [0x68]),
          (env0, Request [''poll'']), (env0, Wake 0)]
         (fire (env0, Request [''quit'']) init))
       = stdout (fire (env0, Request [''quit'']) init)"
    by blast+
  with h v show ?thesis
    by blast
qed

subsection \<open>The autopoll task\<close>

text \<open>
  What a handler does to the task list and its handle: nothing, unless it is the autopoll
  handler creating the first task, or the quit handler cancelling the task and clearing
  the handle.
\<close>

lemma send_fields:
  "QUITTING (send t s) = QUITTING s" "pumps (send t s) = pumps s"
  "autopoll_tasks (send t s) = autopoll_tasks s" "AUTOPOLL_TASK (send t s) = AUTOPOLL_TASK s"
  "AUTOPOLL (send t s) = AUTOPOLL s" "exit_status (send t s) = exit_status s"
  "REGISTERED (send t s) = REGISTERED s" "LASTPS (send t s) = LASTPS s"
  "COMPLETED (send t s) = COMPLETED s" "PROCESSES (send t s) = PROCESSES s"
  "TASKS (send t s) = TASKS s"
  by (simp_all add: send_def)

lemma send_all_fields:
  "QUITTING (send_all ls s) = QUITTING s" "pumps (send_all ls s) = pumps s"
  "autopoll_tasks (send_all ls s) = autopoll_tasks s"
  "AUTOPOLL_TASK (send_all ls s) = AUTOPOLL_TASK s"
  "AUTOPOLL (send_all ls s) = AUTOPOLL s" "exit_status (send_all ls s) = exit_status s"
  "REGISTERED (send_all ls s) = REGISTERED s" "LASTPS (send_all ls s) = LASTPS s"
  "COMPLETED (send_all ls s) = COMPLETED s" "PROCESSES (send_all ls s) = PROCESSES s"
  "TASKS (send_all ls s) = TASKS s"
  by (simp_all add: send_all_eq)

lemmas writer_fields =
  send_fields [of "''begin '' @ str_int i" for i, folded begin_msg_def]
  send_fields [of "''end '' @ str_int i @ '' '' @ str_int st" for i st, folded end_msg_def]
  send_fields [of "''abort '' @ r" for r, folded fail_def]
  send_fields send_all_fields

lemma handler_tasks:
  assumes "HANDLERS cmd = Some f" and "f e i a s = (out, s')"
  shows "exit_status s' = exit_status s
    \<and> ((out \<noteq> Returned True \<and> autopoll_tasks s' = autopoll_tasks s
          \<and> AUTOPOLL_TASK s' = AUTOPOLL_TASK s)
       \<or> (out = Returned False \<and> AUTOPOLL_TASK s = None
           \<and> AUTOPOLL_TASK s' = Some (length (autopoll_tasks s))
           \<and> autopoll_tasks s' = autopoll_tasks s @ [Polling])
       \<or> (out = Returned True \<and> AUTOPOLL_TASK s' = None
           \<and> autopoll_tasks s'
               = (case AUTOPOLL_TASK s of
                    None \<Rightarrow> autopoll_tasks s
                  | Some k \<Rightarrow> (autopoll_tasks s)[k := cancel (autopoll_tasks s ! k)])))"
proof (cases "f = handle_poll")
  case True
  with assms(2) show ?thesis
    by (auto simp: handle_poll_def writer_fields Let_def
        split: sum.splits prod.splits option.splits dest: poll_fields)
next
  case False
  with assms show ?thesis
    by (auto simp: HANDLERS_def handle_run_def handle_login_def handle_send_def handle_kill_def
        handle_quit_def handle_register_def handle_deregister_def handle_reset_def
        handle_autopoll_def writer_fields handle_read_def register_def deregister_def
        Let_def split: if_splits option.splits list.splits)
qed

lemma handle_tasks:
  assumes "handle e args s = (out, s')"
  shows "exit_status s' = exit_status s
    \<and> ((out \<noteq> Returned True \<and> autopoll_tasks s' = autopoll_tasks s
          \<and> AUTOPOLL_TASK s' = AUTOPOLL_TASK s)
       \<or> (out = Returned False \<and> AUTOPOLL_TASK s = None
           \<and> AUTOPOLL_TASK s' = Some (length (autopoll_tasks s))
           \<and> autopoll_tasks s' = autopoll_tasks s @ [Polling])
       \<or> (out = Returned True \<and> AUTOPOLL_TASK s' = None
           \<and> autopoll_tasks s'
               = (case AUTOPOLL_TASK s of
                    None \<Rightarrow> autopoll_tasks s
                  | Some k \<Rightarrow> (autopoll_tasks s)[k := cancel (autopoll_tasks s ! k)])))"
proof (cases args)
  case Nil
  with assms show ?thesis by (auto simp: handle_def)
next
  case (Cons cmd rest)
  show ?thesis
  proof (cases "HANDLERS cmd")
    case None
    with Cons assms show ?thesis by (auto simp: handle_def writer_fields)
  next
    case (Some f)
    obtain o1 s1 where f: "f e (randint e) rest s = (o1, s1)"
      by (cases "f e (randint e) rest s")
    from handler_tasks [OF Some f] Cons Some f assms show ?thesis
      by (cases o1) (auto simp: handle_def finish_def cleanup_frame)
  qed
qed

lemma read_forever_tasks:
  "autopoll_tasks (read_forever e k data s) = autopoll_tasks s
   \<and> AUTOPOLL_TASK (read_forever e k data s) = AUTOPOLL_TASK s
   \<and> exit_status (read_forever e k data s) = exit_status s"
  by (simp add: read_forever_def print_output_eq cleanup_frame Let_def)

lemma autopoll_tasks_step:
  "AUTOPOLL_TASK (autopoll e k s) = AUTOPOLL_TASK s
   \<and> exit_status (autopoll e k s) = exit_status s
   \<and> length (autopoll_tasks (autopoll e k s)) = length (autopoll_tasks s)"
  by (auto simp: autopoll_def writer_fields Let_def
      split: aptask.splits sum.splits prod.splits option.splits dest: poll_fields)

lemma fire_one_task:
  assumes "one_task s" and "exit_status s = None"
  shows "one_task (fire ev s)"
proof -
  obtain e v where ev: "ev = (e, v)" by (cases ev)
  show ?thesis
  proof (cases v)
    case (Request args)
    obtain out s' where h: "handle e args s = (out, s')"
      by (cases "handle e args s")
    from handle_tasks [OF h] assms ev Request h show ?thesis
      by (cases out) (auto simp: one_task_def split: option.splits)
  next
    case (Read k data)
    with ev assms read_forever_tasks [of e k data s] show ?thesis
      by (auto simp: one_task_def split: option.splits)
  next
    case (Wake k)
    with ev assms autopoll_tasks_step [of e k s] show ?thesis
      by (auto simp: one_task_def split: option.splits)
  qed
qed

lemma run_one_task: "one_task s \<Longrightarrow> one_task (run evs s)"
proof (induction evs arbitrary: s)
  case Nil
  then show ?case by simp
next
  case (Cons ev evs)
  have "one_task (step ev s)"
    using Cons.prems fire_one_task [of s ev] by (simp add: step_def)
  then show ?case
    by (simp add: Cons.IH)
qed

lemma one_task_init: "one_task init"
  by (simp add: one_task_def init_def)

lemma one_task_length: "one_task s \<Longrightarrow> length (autopoll_tasks s) \<le> 1"
  by (auto simp: one_task_def split: option.splits)

text \<open>
  C9: in every run of the agent from its start, whatever the requests and background
  events, there is at most one autopoll task (none is ever created beside it); and an
  autopoll request that finds the handle set does nothing but write its two response
  lines and set the armed flag when it is not set: the task list and the handle stay
  as they are.
\<close>

theorem at_most_one_autopoll_task:
  assumes "AUTOPOLL_TASK s = Some k"
  shows "length (autopoll_tasks (run evs init)) \<le> 1
    \<and> handle_autopoll e i args s
        = (Returned False,
           (end_msg i 0 (begin_msg i s))\<lparr>AUTOPOLL := (if AUTOPOLL s \<noteq> 0 then AUTOPOLL s else 1)\<rparr>)
    \<and> autopoll_tasks (snd (handle_autopoll e i args s)) = autopoll_tasks s
    \<and> AUTOPOLL_TASK (snd (handle_autopoll e i args s)) = Some k
    \<and> AUTOPOLL (snd (handle_autopoll e i args s)) \<noteq> 0"
proof -
  have "length (autopoll_tasks (run evs init)) \<le> 1"
    by (rule one_task_length [OF run_one_task [OF one_task_init]])
  moreover from assms have "handle_autopoll e i args s
        = (Returned False,
           (end_msg i 0 (begin_msg i s))\<lparr>AUTOPOLL := (if AUTOPOLL s \<noteq> 0 then AUTOPOLL s else 1)\<rparr>)"
    by (simp add: handle_autopoll_def writer_fields Let_def)
  moreover from assms have "autopoll_tasks (snd (handle_autopoll e i args s)) = autopoll_tasks s"
    "AUTOPOLL_TASK (snd (handle_autopoll e i args s)) = Some k"
    "AUTOPOLL (snd (handle_autopoll e i args s)) \<noteq> 0"
    by (simp_all add: handle_autopoll_def writer_fields Let_def)
  ultimately show ?thesis
    by blast
qed

lemma autopoll_once:
  "run [(env0, Request [''autopoll''])] init
     = init\<lparr>AUTOPOLL := 1, AUTOPOLL_TASK := Some 0, autopoll_tasks := [Polling],
            stdout := [''begin 7'', ''end 7 0'']\<rparr>"
  by (simp add: step_def handle_def HANDLERS_def handle_autopoll_def finish_def cleanup_def
      writer_defs int_text_defs init_def env0_def)

theorem at_most_one_autopoll_task_witness:
  "AUTOPOLL_TASK (run [(env0, Request [''autopoll''])] init) = Some 0
   \<and> (length (autopoll_tasks
         (run [(env0, Request [''autopoll'']), (env0\<lparr>randint := 8\<rparr>, Request [''autopoll''])]
            init)) \<le> 1
      \<and> handle_autopoll env0 8 [] (run [(env0, Request [''autopoll''])] init)
          = (Returned False,
             (end_msg 8 0 (begin_msg 8 (run [(env0, Request [''autopoll''])] init)))
               \<lparr>AUTOPOLL := (if AUTOPOLL (run [(env0, Request [''autopoll''])] init) \<noteq> 0
                             then AUTOPOLL (run [(env0, Request [''autopoll''])] init) else 1)\<rparr>)
      \<and> autopoll_tasks (snd (handle_autopoll env0 8 [] (run [(env0, Request [''autopoll''])] init)))
          = autopoll_tasks (run [(env0, Request [''autopoll''])] init)
      \<and> AUTOPOLL_TASK (snd (handle_autopoll env0 8 [] (run [(env0, Request [''autopoll''])] init)))
          = Some 0
      \<and> AUTOPOLL (snd (handle_autopoll env0 8 [] (run [(env0, Request [''autopoll''])] init)))
          \<noteq> 0)"
proof -
  have h: "AUTOPOLL_TASK (run [(env0, Request [''autopoll''])] init) = Some 0"
    by (subst autopoll_once) simp
  from h at_most_one_autopoll_task [OF h, where e = env0 and i = 8 and args = "[]"
      and evs = "[(env0, Request [''autopoll'']), (env0\<lparr>randint := 8\<rparr>, Request [''autopoll''])]"]
  show ?thesis
    by (rule conjI)
qed

subsection \<open>Lines that do not open an autopoll frame\<close>

lemma not_autopoll_hd:
  assumes "l \<noteq> []" and "hd l \<noteq> CHR ''%''"
  shows "\<not> prefix ''%autopoll'' l"
  using assms by (cases l) auto

lemma str_nat_hd: "hd (str_nat n) \<in> set ''0123456789''"
proof (induction n rule: str_nat.induct)
  case (1 n)
  show ?case
  proof (cases "n < 10")
    case True
    then have "''0123456789'' ! n \<in> set ''0123456789''"
      by (intro nth_mem) simp
    with True show ?thesis
      by (subst str_nat.simps) simp
  next
    case False
    with "1.IH" have "hd (str_nat (n div 10)) \<in> set ''0123456789''"
      by simp
    with False str_nat_nonempty [of "n div 10"] show ?thesis
      by (subst str_nat.simps) (simp del: set_simps)
  qed
qed

lemma str_int_line: "\<not> prefix ''%autopoll'' (str_int n)"
proof (rule not_autopoll_hd)
  show "str_int n \<noteq> []"
    by (simp add: str_int_def str_nat_nonempty)
  have "hd (str_nat m) \<noteq> CHR ''%''" for m
    using str_nat_hd [of m] by auto
  then show "hd (str_int n) \<noteq> CHR ''%''"
    by (simp add: str_int_def)
qed

lemma diff_line: "l \<in> set (diff h results previous) \<Longrightarrow> \<not> prefix ''%autopoll'' l"
  by (auto simp: diff_def)

lemma b64char_not_percent: "n < 64 \<Longrightarrow> b64char n \<noteq> CHR ''%''"
proof -
  let ?alphabet = "''ABCDEFGHIJKLMNOPQRSTUVWXYZabcdefghijklmnopqrstuvwxyz0123456789+/''"
  assume "n < 64"
  then have "?alphabet ! n \<in> set ?alphabet"
    by (intro nth_mem) simp
  moreover have "CHR ''%'' \<notin> set ?alphabet"
    by simp
  ultimately show ?thesis
    unfolding b64char_def by metis
qed

lemma byte_bound: "unat (a :: byte) < 256"
  using unsigned_less [of a, where 'a = nat] by simp

lemma sextet_bounds:
  fixes x y :: nat
  assumes "x < 256" and "y < 256"
  shows "x div 4 < 64" and "x mod 4 * 16 < 64" and "x mod 4 * 16 + y div 16 < 64"
    and "x mod 16 * 4 < 64" and "x mod 16 * 4 + y div 64 < 64" and "x mod 64 < 64"
proof -
  show "x div 4 < 64" using assms by arith
  show "x mod 4 * 16 < 64" by arith
  show "x mod 4 * 16 + y div 16 < 64" using assms by arith
  show "x mod 16 * 4 < 64" by arith
  show "x mod 16 * 4 + y div 64 < 64" using assms by arith
  show "x mod 64 < 64" by simp
qed

lemma b64encode_no_percent: "CHR ''%'' \<notin> set (b64encode data)"
proof (induction data rule: b64encode.induct)
  case 1
  show ?case by simp
next
  case (2 a)
  note bounds = sextet_bounds [OF byte_bound [of a] byte_bound [of a]]
  have "b64char (unat a div 4) \<noteq> CHR ''%''" "b64char (unat a mod 4 * 16) \<noteq> CHR ''%''"
    by (simp_all add: b64char_not_percent bounds)
  then show ?case
    by (simp; metis)
next
  case (3 a b)
  note bounds = sextet_bounds [OF byte_bound [of a] byte_bound [of b]]
    sextet_bounds [OF byte_bound [of b] byte_bound [of b]]
  have "b64char (unat a div 4) \<noteq> CHR ''%''"
    "b64char (unat a mod 4 * 16 + unat b div 16) \<noteq> CHR ''%''"
    "b64char (unat b mod 16 * 4) \<noteq> CHR ''%''"
    by (simp_all add: b64char_not_percent bounds)
  then show ?case
    by (simp; metis)
next
  case (4 a b c r)
  note bounds = sextet_bounds [OF byte_bound [of a] byte_bound [of b]]
    sextet_bounds [OF byte_bound [of b] byte_bound [of c]]
    sextet_bounds [OF byte_bound [of c] byte_bound [of c]]
  have "b64char (unat a div 4) \<noteq> CHR ''%''"
    "b64char (unat a mod 4 * 16 + unat b div 16) \<noteq> CHR ''%''"
    "b64char (unat b mod 16 * 4 + unat c div 64) \<noteq> CHR ''%''"
    "b64char (unat c mod 64) \<noteq> CHR ''%''"
    by (simp_all add: b64char_not_percent bounds)
  with "4.IH" show ?case
    by (simp; metis)
qed

lemma slices_subset: "l \<in> set (slices i n t) \<Longrightarrow> set l \<subseteq> set t"
proof (induction i n t rule: slices.induct)
  case (1 i n t)
  show ?case
  proof (cases "i < length t \<and> 0 < n")
    case True
    with "1.prems" have "l = take n (drop i t) \<or> l \<in> set (slices (i + n) n t)"
      by (subst (asm) slices.simps) simp
    then show ?thesis
    proof
      assume "l = take n (drop i t)"
      then show ?thesis
        by (metis set_drop_subset set_take_subset subset_trans)
    next
      assume "l \<in> set (slices (i + n) n t)"
      with True "1.IH" show ?thesis by simp
    qed
  next
    case False
    with "1.prems" show ?thesis
      by (subst (asm) slices.simps) auto
  qed
qed

lemma slice_line:
  assumes "l \<in> set (slices 0 128 (b64encode data))"
  shows "\<not> prefix ''%autopoll'' l"
proof (rule not_autopoll_hd)
  from slices_lengths [OF assms] show ne: "l \<noteq> []"
    by auto
  then have "hd l \<in> set l" by simp
  with slices_subset [OF assms] b64encode_no_percent [of data] show "hd l \<noteq> CHR ''%''"
    by auto
qed

lemma quiet_same: "stdout s' = stdout s \<Longrightarrow> quiet_since s s'"
  by (simp add: quiet_since_def)

lemma quiet_trans: "quiet_since s s' \<Longrightarrow> quiet_since s' s'' \<Longrightarrow> quiet_since s s''"
  by (auto simp: quiet_since_def)

lemma quiet_send: "\<not> prefix ''%autopoll'' t \<Longrightarrow> quiet_since s (send t s)"
  by (simp add: quiet_since_def send_def)

lemma quiet_send_all:
  "(\<And>l. l \<in> set ls \<Longrightarrow> \<not> prefix ''%autopoll'' l) \<Longrightarrow> quiet_since s (send_all ls s)"
  by (auto simp: quiet_since_def send_all_eq)

lemma quiet_begin: "quiet_since s (begin_msg i s)"
  unfolding begin_msg_def by (rule quiet_send) simp

lemma quiet_end: "quiet_since s (end_msg i st s)"
  unfolding end_msg_def by (rule quiet_send) simp

lemma quiet_fail: "quiet_since s (fail reason s)"
  unfolding fail_def by (rule quiet_send) simp

lemma quiet_begin_end: "stdout s1 = stdout s \<Longrightarrow> quiet_since s (end_msg i st (begin_msg i s1))"
  by (blast intro: quiet_trans quiet_same quiet_begin quiet_end)

lemma quiet_print_output: "quiet_since s (print_output i pid channel islogin data s)"
  by (auto simp: quiet_since_def print_output_eq dest: slice_line)

lemma quiet_cleanup_each: "quiet_since s (cleanup_each e c s)"
proof (induction c arbitrary: s)
  case Nil
  show ?case by (simp add: quiet_same)
next
  case (Cons pid c)
  show ?case
  proof (cases "PROCESSES s pid")
    case None
    with Cons.IH show ?thesis by simp
  next
    case (Some proc)
    let ?rc = "case return_code proc of None \<Rightarrow> wait_status e pid | Some r \<Rightarrow> r"
    let ?s1 = "s\<lparr>PROCESSES := (PROCESSES s)(pid := None),
        TASKS := TASKS s @ (if stderr_reader proc then [proc_pid proc] else []) @ [proc_pid proc]\<rparr>"
    let ?s2 = "send (''%terminate '' @ str_int (proc_pid proc) @ '' '' @ str_int ?rc) ?s1"
    have "quiet_since ?s1 ?s2"
      by (rule quiet_send) simp
    moreover have "quiet_since s ?s1"
      by (simp add: quiet_same)
    ultimately have "quiet_since s ?s2"
      by (blast intro: quiet_trans)
    with Cons.IH [of ?s2] have "quiet_since s (cleanup_each e c ?s2)"
      by (blast intro: quiet_trans)
    with Some show ?thesis
      by (simp add: Let_def)
  qed
qed

lemma quiet_cleanup: "quiet_since s (cleanup e s)"
proof -
  have "quiet_since (s\<lparr>COMPLETED := []\<rparr>) (cleanup e s)"
    unfolding cleanup_def by (rule quiet_cleanup_each)
  moreover have "quiet_since s (s\<lparr>COMPLETED := []\<rparr>)"
    by (simp add: quiet_same)
  ultimately show ?thesis
    by (blast intro: quiet_trans)
qed

lemma poll_lines:
  assumes "poll e s = Inr (Some ls, s1)" and "l \<in> set ls"
  shows "\<not> prefix ''%autopoll'' l"
  using assms
  by (auto simp: poll_def procmon_parse_def Let_def
      split: if_splits sum.splits prod.splits dest: diff_line)

lemma quiet_handle_poll: "quiet_since s (snd (handle_poll e i a s))"
proof (cases "poll e s")
  case (Inl x)
  then show ?thesis by (simp add: handle_poll_def quiet_same)
next
  case (Inr r)
  obtain res s1 where r: "r = (res, s1)" by (cases r)
  from Inr r poll_fields [of e s res s1] have same: "stdout s1 = stdout s"
    by simp
  show ?thesis
  proof (cases res)
    case None
    with Inr r same show ?thesis by (simp add: handle_poll_def quiet_same)
  next
    case (Some ls)
    with Inr r have "\<And>l. l \<in> set ls \<Longrightarrow> \<not> prefix ''%autopoll'' l"
      by (auto dest: poll_lines)
    then have "quiet_since (begin_msg i s1) (send_all ls (begin_msg i s1))"
      by (rule quiet_send_all)
    moreover have "quiet_since s (begin_msg i s1)"
      using same by (blast intro: quiet_trans quiet_same quiet_begin)
    ultimately have "quiet_since s (end_msg i 0 (send_all ls (begin_msg i s1)))"
      by (blast intro: quiet_trans quiet_end)
    with Inr r Some show ?thesis
      by (simp add: handle_poll_def Let_def)
  qed
qed

lemma quiet_handler:
  assumes "HANDLERS cmd = Some f"
  shows "quiet_since s (snd (f e i a s))"
proof (cases "f = handle_poll")
  case True
  then show ?thesis by (simp add: quiet_handle_poll)
next
  case False
  have pid_line: "quiet_since s1 (send (str_int n) s1)" for s1 n
    by (rule quiet_send) (rule str_int_line)
  have spawned: "quiet_since s
      (handle_read proc i b (end_msg i 0 (send (str_int n) (begin_msg i (s\<lparr>PROCESSES := m\<rparr>)))))"
    for proc b n m
  proof -
    let ?s1 = "s\<lparr>PROCESSES := m\<rparr>"
    have "quiet_since s ?s1" by (simp add: quiet_same)
    moreover have "quiet_since ?s1 (begin_msg i ?s1)" by (rule quiet_begin)
    moreover have "quiet_since (begin_msg i ?s1) (send (str_int n) (begin_msg i ?s1))"
      by (rule pid_line)
    moreover have "quiet_since (send (str_int n) (begin_msg i ?s1))
        (end_msg i 0 (send (str_int n) (begin_msg i ?s1)))"
      by (rule quiet_end)
    moreover have "quiet_since (end_msg i 0 (send (str_int n) (begin_msg i ?s1)))
        (handle_read proc i b (end_msg i 0 (send (str_int n) (begin_msg i ?s1))))"
      by (simp add: quiet_same handle_read_def)
    ultimately show ?thesis
      by (blast intro: quiet_trans)
  qed
  have changed: "quiet_since s (g (end_msg i st (begin_msg i s1)))"
    if "stdout s1 = stdout s" and "\<And>u. stdout (g u) = stdout u" for g st s1
    using that by (blast intro: quiet_trans quiet_same quiet_begin_end)
  from False assms show ?thesis
    by (auto simp: HANDLERS_def handle_run_def handle_login_def handle_send_def handle_kill_def
        handle_quit_def handle_register_def handle_deregister_def handle_reset_def
        handle_autopoll_def Let_def register_def deregister_def
        quiet_same quiet_fail quiet_begin quiet_begin_end spawned
        intro: changed [where g = "\<lambda>u. u\<lparr>REGISTERED := r\<rparr>" for r]
          changed [where g = "\<lambda>u. u\<lparr>AUTOPOLL := r\<rparr>" for r]
          changed [where g = "\<lambda>u. u\<lparr>AUTOPOLL := r, AUTOPOLL_TASK := t, autopoll_tasks := ts\<rparr>" for r t ts]
          changed [where g = "\<lambda>u. u\<lparr>autopoll_tasks := ts, AUTOPOLL_TASK := t\<rparr>" for t ts]
        split: if_splits option.splits list.splits)
qed

lemma quiet_handle: "quiet_since s (snd (handle e args s))"
proof (cases args)
  case Nil
  then show ?thesis by (simp add: handle_def quiet_same)
next
  case (Cons cmd rest)
  show ?thesis
  proof (cases "HANDLERS cmd")
    case None
    with Cons show ?thesis by (simp add: handle_def quiet_fail)
  next
    case (Some f)
    obtain o1 s1 where f: "f e (randint e) rest s = (o1, s1)"
      by (cases "f e (randint e) rest s")
    from quiet_handler [OF Some, of s e "randint e" rest] f have q1: "quiet_since s s1"
      by simp
    have fin: "quiet_since s (snd (finish e b u))" if "stdout u = stdout s1" for b u
    proof -
      from that q1 have "quiet_since s u"
        by (blast intro: quiet_trans quiet_same)
      moreover have "quiet_since u (cleanup e u)"
        by (rule quiet_cleanup)
      moreover have "quiet_since (cleanup e u) ((cleanup e u)\<lparr>TASKS := []\<rparr>)"
        by (simp add: quiet_same)
      ultimately show ?thesis
        unfolding finish_def by (auto intro: quiet_trans)
    qed
    from Cons Some f q1 show ?thesis
      by (cases o1) (auto simp: handle_def intro: fin)
  qed
qed

lemma quiet_read_forever: "quiet_since s (read_forever e k data s)"
proof -
  have "quiet_since s (cleanup e (s\<lparr>COMPLETED := c, pumps := ps\<rparr>))" for c ps
  proof -
    have "quiet_since s (s\<lparr>COMPLETED := c, pumps := ps\<rparr>)"
      by (simp add: quiet_same)
    then show ?thesis
      by (blast intro: quiet_trans quiet_cleanup)
  qed
  then show ?thesis
    by (simp add: read_forever_def quiet_same quiet_print_output Let_def)
qed

lemma autopoll_after_end: "autopoll_tasks s = [Finished] \<Longrightarrow> autopoll e k s = s"
  by (cases k) (simp_all add: autopoll_def)

lemma fire_task_ended:
  assumes "task_ended s" and "exit_status s = None"
  shows "task_ended (fire ev s) \<and> quiet_since s (fire ev s)"
proof -
  obtain e v where ev: "ev = (e, v)" by (cases ev)
  from assms have tasks: "autopoll_tasks s = [Finished]" and handle: "AUTOPOLL_TASK s = Some 0"
    by (simp_all add: task_ended_def)
  show ?thesis
  proof (cases v)
    case (Request args)
    obtain out s' where h: "handle e args s = (out, s')"
      by (cases "handle e args s")
    from quiet_handle [of s e args] h have q: "quiet_since s s'"
      by simp
    have q': "quiet_since s (s'\<lparr>exit_status := x\<rparr>)" for x
    proof -
      have "quiet_since s' (s'\<lparr>exit_status := x\<rparr>)"
        by (simp add: quiet_same)
      with q show ?thesis
        by (blast intro: quiet_trans)
    qed
    from handle_tasks [OF h] tasks handle
    have "autopoll_tasks s' = [Finished]
        \<and> (out \<noteq> Returned True \<longrightarrow> AUTOPOLL_TASK s' = Some 0) \<and> exit_status s' = None"
      using assms(2) by auto
    with ev Request h q q' show ?thesis
      by (cases out) (auto simp: task_ended_def)
  next
    case (Read k data)
    with ev assms read_forever_tasks [of e k data s] quiet_read_forever [of s e k data]
    show ?thesis
      by (simp add: task_ended_def)
  next
    case (Wake k)
    with ev assms tasks show ?thesis
      by (simp add: autopoll_after_end quiet_same)
  qed
qed

lemma run_task_ended:
  "task_ended s \<Longrightarrow> task_ended (run evs s) \<and> quiet_since s (run evs s)"
proof (induction evs arbitrary: s)
  case Nil
  then show ?case by (simp add: quiet_same)
next
  case (Cons ev evs)
  have "task_ended (step ev s) \<and> quiet_since s (step ev s)"
    using Cons.prems fire_task_ended [of s ev] by (simp add: step_def quiet_same)
  with Cons.IH [of "step ev s"] show ?case
    by (auto intro: quiet_trans)
qed

text \<open>
  C10: the agent has run from its start and lives, the handle of the autopoll task is set
  and the task is about to poll; it resumes, and \<^verbatim>\<open>ps\<close> has exited with a status other
  than 0. Then the task returns (the length of \<^verbatim>\<open>None\<close> raises inside it) and nothing
  else changes. Whatever happens afterwards, the task list stays as it is, with that one
  returned task, the handle stays set for as long as the agent lives, so that no
  autopoll request creates a task; and no line that opens an autopoll frame is written
  any more.
\<close>

theorem autopoll_ends_on_ps_failure:
  assumes "s = run evs init" and "exit_status s = None" and "AUTOPOLL_TASK s = Some k"
    and "autopoll_tasks s ! k = Polling" and "ps_returncode e \<noteq> 0"
  shows "step (e, Wake k) s = s\<lparr>autopoll_tasks := [Finished]\<rparr>
    \<and> autopoll_tasks (run evs' (step (e, Wake k) s)) = [Finished]
    \<and> (exit_status (run evs' (step (e, Wake k) s)) = None
         \<longrightarrow> AUTOPOLL_TASK (run evs' (step (e, Wake k) s)) = Some k)
    \<and> (\<exists>ls. stdout (run evs' (step (e, Wake k) s)) = stdout s @ ls
           \<and> (\<forall>l \<in> set ls. \<not> prefix ''%autopoll'' l))"
proof -
  from assms(1) have "one_task s"
    by (simp add: run_one_task one_task_init)
  with assms(3) have k: "k = 0" and len: "length (autopoll_tasks s) = 1"
    by (simp_all add: one_task_def)
  with assms(4) have tasks: "autopoll_tasks s = [Polling]"
    by (cases "autopoll_tasks s") simp_all
  from assms(5) have "poll e s = Inr (None, s)"
    by (simp add: poll_def)
  with k tasks have "autopoll e k s = s\<lparr>autopoll_tasks := [Finished]\<rparr>"
    by (simp add: autopoll_def)
  with assms(2) have first: "step (e, Wake k) s = s\<lparr>autopoll_tasks := [Finished]\<rparr>"
    by (simp add: step_def)
  let ?s1 = "s\<lparr>autopoll_tasks := [Finished]\<rparr>"
  from assms(3) k have "task_ended ?s1"
    by (simp add: task_ended_def)
  from run_task_ended [OF this, of evs']
  have ended: "task_ended (run evs' ?s1)" and quiet: "quiet_since ?s1 (run evs' ?s1)"
    by simp_all
  from ended k have "autopoll_tasks (run evs' ?s1) = [Finished]"
    and "exit_status (run evs' ?s1) = None \<longrightarrow> AUTOPOLL_TASK (run evs' ?s1) = Some k"
    by (auto simp: task_ended_def)
  moreover from quiet have "\<exists>ls. stdout (run evs' ?s1) = stdout s @ ls
      \<and> (\<forall>l \<in> set ls. \<not> prefix ''%autopoll'' l)"
    by (simp add: quiet_since_def)
  ultimately show ?thesis
    unfolding first by blast
qed

theorem autopoll_ends_on_ps_failure_witness:
  "exit_status (run [(env0, Request [''autopoll''])] init) = None
   \<and> AUTOPOLL_TASK (run [(env0, Request [''autopoll''])] init) = Some 0
   \<and> autopoll_tasks (run [(env0, Request [''autopoll''])] init) ! 0 = Polling
   \<and> ps_returncode (env0\<lparr>ps_returncode := 1\<rparr>) \<noteq> 0
   \<and> step (env0\<lparr>ps_returncode := 1\<rparr>, Wake 0) (run [(env0, Request [''autopoll''])] init)
       = (run [(env0, Request [''autopoll''])] init)\<lparr>autopoll_tasks := [Finished]\<rparr>
   \<and> autopoll_tasks
        (run [(env0\<lparr>randint := 8\<rparr>, Request [''autopoll'']), (env0, Wake 0)]
           (step (env0\<lparr>ps_returncode := 1\<rparr>, Wake 0) (run [(env0, Request [''autopoll''])] init)))
       = [Finished]
   \<and> AUTOPOLL_TASK
        (run [(env0\<lparr>randint := 8\<rparr>, Request [''autopoll'']), (env0, Wake 0)]
           (step (env0\<lparr>ps_returncode := 1\<rparr>, Wake 0) (run [(env0, Request [''autopoll''])] init)))
       = Some 0
   \<and> stdout
        (run [(env0\<lparr>randint := 8\<rparr>, Request [''autopoll'']), (env0, Wake 0)]
           (step (env0\<lparr>ps_returncode := 1\<rparr>, Wake 0) (run [(env0, Request [''autopoll''])] init)))
       = [''begin 7'', ''end 7 0'', ''begin 8'', ''end 8 0'']"
proof -
  let ?s = "run [(env0, Request [''autopoll''])] init"
  let ?e = "env0\<lparr>ps_returncode := 1\<rparr>"
  let ?evs' = "[(env0\<lparr>randint := 8\<rparr>, Request [''autopoll'']), (env0, Wake 0)]"
  have h2: "exit_status ?s = None"
    and h3: "AUTOPOLL_TASK ?s = Some 0"
    and h4: "autopoll_tasks ?s ! 0 = Polling"
    by (subst autopoll_once, simp add: init_def)+
  have h5: "ps_returncode ?e \<noteq> 0"
    by simp
  note t = autopoll_ends_on_ps_failure [OF refl h2 h3 h4 h5, where evs' = ?evs']
  from t have first: "step (?e, Wake 0) ?s = ?s\<lparr>autopoll_tasks := [Finished]\<rparr>"
    and tasks: "autopoll_tasks (run ?evs' (step (?e, Wake 0) ?s)) = [Finished]"
    and handle: "exit_status (run ?evs' (step (?e, Wake 0) ?s)) = None
         \<longrightarrow> AUTOPOLL_TASK (run ?evs' (step (?e, Wake 0) ?s)) = Some 0"
    by blast+
  have later: "run ?evs' (?s\<lparr>autopoll_tasks := [Finished]\<rparr>)
      = init\<lparr>AUTOPOLL := 1, AUTOPOLL_TASK := Some 0, autopoll_tasks := [Finished],
             stdout := [''begin 7'', ''end 7 0'', ''begin 8'', ''end 8 0'']\<rparr>"
    unfolding autopoll_once
    by (simp add: step_def handle_def HANDLERS_def handle_autopoll_def finish_def cleanup_def
        writer_defs int_text_defs init_def env0_def autopoll_def)
  have alive: "exit_status (run ?evs' (step (?e, Wake 0) ?s)) = None"
    and out: "stdout (run ?evs' (step (?e, Wake 0) ?s))
      = [''begin 7'', ''end 7 0'', ''begin 8'', ''end 8 0'']"
    unfolding first later by (simp_all add: init_def)
  from handle alive have "AUTOPOLL_TASK (run ?evs' (step (?e, Wake 0) ?s)) = Some 0"
    by blast
  with h2 h3 h4 h5 first tasks out show ?thesis
    by blast
qed

end
